theory Spec2Isabelle
  imports Main "HOL-Library.List_Lexorder"
begin

section \<open>A CAR-file block store: the read-only and the read-write blockstore of go-car v2\<close>

text \<open>
  The development embeds \<^verbatim>\<open>v2/blockstore/readonly.go\<close> and
  \<^verbatim>\<open>v2/blockstore/readwrite.go\<close>: the stores \<^verbatim>\<open>ReadOnly\<close> and
  \<^verbatim>\<open>ReadWrite\<close> with their operations. The packages they call (the section codec,
  the CARv1 and CARv2 header codecs, the offset readers and writers, the insertion index)
  are modelled from the specification, each under a comment that says so.

  Offsets are \<^verbatim>\<open>uint64\<close> and \<^verbatim>\<open>int64\<close> in the source. The model uses
  \<^typ>\<open>nat\<close>; it agrees with the source while every offset stays below \<open>2^63\<close>. The one
  subtraction of the source that can wrap on the contents of a file (the padding reported
  by a mismatch) is written with its wrap-around.
\<close>

subsection \<open>Keys, blocks and errors\<close>

type_synonym bytes = "nat list"

text \<open>
  A key is a content identifier: a codec tag and a multihash. \<open>Hash\<close> is
  \<^verbatim>\<open>cid.Cid.Hash\<close>; equality of two values of the type is \<^verbatim>\<open>cid.Cid.Equals\<close>.
\<close>

datatype cid = Cid (Codec: nat) (Hash: bytes)

datatype block = Block (BlockCid: cid) (RawData: bytes)

datatype error =
    ErrNotFound
  | ErrFinalized
  | ErrFinalizedTwice
  | ErrWriteOnReadOnly
  | ErrUnsupportedVersion nat
  | ErrNotACarV2 nat
  | ErrPaddingMismatch nat nat
  | ErrCorruptHeader
  | ErrRootMismatch
  | ErrMalformedPadding
  | ErrBadHeader
  | ErrBadCid
  | ErrBadVarint
  | ErrBadPayload
  | ErrEOF
  | ErrUnexpectedEOF
  | ErrShortWrite
  | ErrClosed

text \<open>
  A Go call fails either by returning an \<^verbatim>\<open>error\<close> or by a \<^verbatim>\<open>panic\<close>; the model
  keeps the two apart.
\<close>

datatype failure = Err error | Panic error

subsection \<open>The file\<close>

text \<open>
  Modelled from the spec: the byte encodings of the collaborators (varints, CIDs, the CARv1
  header body, the CARv2 pragma and header, the flattened index), which the spec names
  without fixing their bytes. A file is a list of bytes. A payload byte is \<open>Raw b\<close>; the
  \<open>i\<close>-th byte of the encoding of an item \<open>it\<close> is \<open>Sym it i\<close>, so that an item decodes
  exactly where all of its bytes stand in order, and a torn or overwritten item does not
  decode. A byte never written reads as \<open>Raw 0\<close>.
\<close>

record Header =
  Characteristics :: nat
  DataOffset :: nat
  DataSize :: nat
  IndexOffset :: nat

datatype item =
    IPragma
  | IHeader Header
  | IVarint nat
  | ICid cid
  | ICarHeader "cid list" nat
  | IIndex "(cid \<times> nat) list"

datatype sbyte = Raw nat | Sym item nat

definition PragmaSize :: nat where
  "PragmaSize = 11"

definition HeaderSize :: nat where
  "HeaderSize = 40"

function varint_len :: "nat \<Rightarrow> nat" where
  "varint_len n = (if n < 128 then 1 else 1 + varint_len (n div 128))"
  by pat_completeness auto
termination
  by (relation "measure (\<lambda>n. n)") auto

declare varint_len.simps [simp del]

definition cid_len :: "cid \<Rightarrow> nat" where
  "cid_len c = 1 + varint_len (Codec c) + length (Hash c)"

definition car_header_len :: "cid list \<Rightarrow> nat \<Rightarrow> nat" where
  "car_header_len roots version = 17 + sum_list (map (\<lambda>c. 5 + cid_len c) roots)"

definition index_len :: "(cid \<times> nat) list \<Rightarrow> nat" where
  "index_len rs = 1 + sum_list (map (\<lambda>r. 8 + length (Hash (fst r))) rs)"

fun item_len :: "item \<Rightarrow> nat" where
  "item_len IPragma = PragmaSize"
| "item_len (IHeader h) = HeaderSize"
| "item_len (IVarint n) = varint_len n"
| "item_len (ICid c) = cid_len c"
| "item_len (ICarHeader roots version) = car_header_len roots version"
| "item_len (IIndex rs) = index_len rs"

definition zero_header :: Header where
  "zero_header = \<lparr>Characteristics = 0, DataOffset = 0, DataSize = 0, IndexOffset = 0\<rparr>"

definition enc :: "item \<Rightarrow> sbyte list" where
  "enc it =
     (if it = IVarint 0 then [Raw 0]
      else if it = IHeader zero_header then replicate HeaderSize (Raw 0)
      else map (Sym it) [0..<item_len it])"

definition enc_raw :: "bytes \<Rightarrow> sbyte list" where
  "enc_raw d = map Raw d"

text \<open>
  \<open>item_at xs\<close> decodes the item that starts at the head of \<open>xs\<close>: the bytes that follow
  must be its whole encoding.
\<close>

fun item_at :: "sbyte list \<Rightarrow> failure + item" where
  "item_at [] = Inl (Err ErrEOF)"
| "item_at (Raw b # xs) = Inl (Err ErrBadPayload)"
| "item_at (Sym it i # xs) =
     (if i = 0 \<and> take (item_len it) (Sym it i # xs) = enc it then Inr it
      else if length (Sym it i # xs) < item_len it then Inl (Err ErrUnexpectedEOF)
      else Inl (Err ErrBadPayload))"

fun raw_of :: "sbyte list \<Rightarrow> failure + bytes" where
  "raw_of [] = Inr []"
| "raw_of (Raw b # xs) = (case raw_of xs of Inl e \<Rightarrow> Inl e | Inr d \<Rightarrow> Inr (b # d))"
| "raw_of (Sym it i # xs) = Inl (Err ErrBadPayload)"

text \<open>
  Modelled from the spec: \<^verbatim>\<open>os.File\<close>. \<open>budget\<close> is the number of bytes the device
  still accepts (\<open>None\<close>: no limit): a write beyond it stores the bytes that fit and fails,
  which is also what a crash in the middle of a write leaves behind.
\<close>

record osfile =
  content :: "sbyte list"
  budget :: "nat option"
  closed :: bool

definition write_bytes :: "sbyte list \<Rightarrow> nat \<Rightarrow> sbyte list \<Rightarrow> sbyte list" where
  "write_bytes c off bs =
     take off (c @ replicate (off - length c) (Raw 0)) @ bs @ drop (off + length bs) c"

definition WriteAt :: "osfile \<Rightarrow> sbyte list \<Rightarrow> nat \<Rightarrow> (nat \<times> failure option) \<times> osfile" where
  "WriteAt fl bs off =
     (if closed fl then ((0, Some (Err ErrClosed)), fl)
      else if bs = [] then ((0, None), fl)
      else case budget fl of
        None \<Rightarrow> ((length bs, None), fl\<lparr>content := write_bytes (content fl) off bs\<rparr>)
      | Some k \<Rightarrow>
          if length bs \<le> k
          then ((length bs, None),
                fl\<lparr>content := write_bytes (content fl) off bs, budget := Some (k - length bs)\<rparr>)
          else if k = 0 then ((0, Some (Err ErrShortWrite)), fl)
          else ((k, Some (Err ErrShortWrite)),
                fl\<lparr>content := write_bytes (content fl) off (take k bs), budget := Some 0\<rparr>))"

definition Truncate :: "osfile \<Rightarrow> nat \<Rightarrow> failure option \<times> osfile" where
  "Truncate fl n =
     (if closed fl then (Some (Err ErrClosed), fl)
      else (None, fl\<lparr>content := take n (content fl @ replicate (n - length (content fl)) (Raw 0))\<rparr>))"

definition Close :: "osfile \<Rightarrow> osfile" where
  "Close fl = fl\<lparr>closed := True\<rparr>"

text \<open>
  A read at \<open>pos\<close>: the decoder \<open>dec\<close> runs on the bytes of the file from \<open>pos\<close> to its
  end, as a reader positioned there sees them.
\<close>

definition read_at :: "osfile \<Rightarrow> nat \<Rightarrow> (sbyte list \<Rightarrow> failure + 'a) \<Rightarrow> failure + 'a" where
  "read_at fl pos dec = (if closed fl then Inl (Err ErrClosed) else dec (drop pos (content fl)))"

subsection \<open>Decoders\<close>

text \<open>
  Modelled from the spec: \<^verbatim>\<open>varint.ReadUvarint\<close>, \<^verbatim>\<open>cid.CidFromReader\<close>,
  \<^verbatim>\<open>util.LdRead\<close> and \<^verbatim>\<open>util.ReadNode\<close> (the section codec), \<^verbatim>\<open>carv1.ReadHeader\<close>,
  \<^verbatim>\<open>carv2.ReadVersion\<close> and \<^verbatim>\<open>carv2.Header.ReadFrom\<close>. Each takes the bytes from the
  position of its reader to the end of the file; the ones that a caller continues after
  return the number of bytes they consumed.
\<close>

definition dec_varint :: "sbyte list \<Rightarrow> failure + (nat \<times> nat)" where
  "dec_varint xs =
     (case xs of
        [] \<Rightarrow> Inl (Err ErrEOF)
      | Raw b # _ \<Rightarrow> if b = 0 then Inr (0, 1) else Inl (Err ErrBadVarint)
      | Sym it i # _ \<Rightarrow>
          (case item_at xs of
             Inl e \<Rightarrow> Inl e
           | Inr (IVarint n) \<Rightarrow> Inr (n, varint_len n)
           | Inr _ \<Rightarrow> Inl (Err ErrBadVarint)))"

definition dec_cid :: "sbyte list \<Rightarrow> failure + (nat \<times> cid)" where
  "dec_cid xs =
     (case item_at xs of
        Inl e \<Rightarrow> Inl (Err ErrBadCid)
      | Inr (ICid c) \<Rightarrow> Inr (cid_len c, c)
      | Inr _ \<Rightarrow> Inl (Err ErrBadCid))"

definition LdRead :: "sbyte list \<Rightarrow> failure + sbyte list" where
  "LdRead xs =
     (case dec_varint xs of
        Inl e \<Rightarrow> Inl e
      | Inr (l, m) \<Rightarrow>
          if length (drop m xs) < l then Inl (Err ErrUnexpectedEOF)
          else Inr (take l (drop m xs)))"

definition ReadNode :: "sbyte list \<Rightarrow> failure + (cid \<times> bytes)" where
  "ReadNode xs =
     (case LdRead xs of
        Inl e \<Rightarrow> Inl e
      | Inr buf \<Rightarrow>
          (case dec_cid buf of
             Inl e \<Rightarrow> Inl e
           | Inr (n, c) \<Rightarrow>
               (case raw_of (drop n buf) of
                  Inl e \<Rightarrow> Inl e
                | Inr d \<Rightarrow> Inr (c, d))))"

datatype CarHeader = CarHeader (Roots: "cid list") (Version: nat)

definition ReadHeader :: "sbyte list \<Rightarrow> failure + CarHeader" where
  "ReadHeader xs =
     (case LdRead xs of
        Inl e \<Rightarrow> Inl e
      | Inr hb \<Rightarrow>
          (case item_at hb of
             Inr (ICarHeader roots version) \<Rightarrow>
               if length hb = car_header_len roots version
               then Inr (CarHeader roots version) else Inl (Err ErrBadHeader)
           | _ \<Rightarrow> Inl (Err ErrBadHeader)))"

definition carv1_HeaderSize :: "CarHeader \<Rightarrow> nat" where
  "carv1_HeaderSize h =
     varint_len (car_header_len (Roots h) (Version h)) + car_header_len (Roots h) (Version h)"

definition Matches :: "CarHeader \<Rightarrow> CarHeader \<Rightarrow> bool" where
  "Matches h other = (Version h = Version other \<and> Roots h = Roots other)"

definition ReadVersion :: "sbyte list \<Rightarrow> failure + nat" where
  "ReadVersion xs =
     (case item_at xs of
        Inr IPragma \<Rightarrow> Inr 2
      | _ \<Rightarrow> (case ReadHeader xs of Inl e \<Rightarrow> Inl e | Inr h \<Rightarrow> Inr (Version h)))"

definition Header_ReadFrom :: "sbyte list \<Rightarrow> failure + Header" where
  "Header_ReadFrom xs =
     (if xs = [] then Inl (Err ErrEOF)
      else if length xs < HeaderSize then Inl (Err ErrUnexpectedEOF)
      else if take HeaderSize xs = replicate HeaderSize (Raw 0) then Inr zero_header
      else case item_at (take HeaderSize xs) of
             Inr (IHeader h) \<Rightarrow> Inr h
           | _ \<Rightarrow> Inl (Err ErrBadHeader))"

subsection \<open>The CARv2 header\<close>

text \<open>
  Modelled from the spec: \<^verbatim>\<open>carv2.NewHeader\<close> and the \<^verbatim>\<open>With\<close> functions of
  \<^verbatim>\<open>carv2.Header\<close>: the data starts after the pragma, the header and the data padding;
  the index starts after the data and the index padding.
\<close>

definition NewHeader :: "nat \<Rightarrow> Header" where
  "NewHeader dataSize =
     \<lparr>Characteristics = 0, DataOffset = PragmaSize + HeaderSize, DataSize = dataSize,
      IndexOffset = PragmaSize + HeaderSize + dataSize\<rparr>"

definition WithDataPadding :: "Header \<Rightarrow> nat \<Rightarrow> Header" where
  "WithDataPadding h padding =
     h\<lparr>DataOffset := PragmaSize + HeaderSize + padding, IndexOffset := IndexOffset h + padding\<rparr>"

definition WithIndexPadding :: "Header \<Rightarrow> nat \<Rightarrow> Header" where
  "WithIndexPadding h padding = h\<lparr>IndexOffset := IndexOffset h + padding\<rparr>"

definition WithDataSize :: "Header \<Rightarrow> nat \<Rightarrow> Header" where
  "WithDataSize h sz = h\<lparr>DataSize := sz, IndexOffset := IndexOffset h + sz\<rparr>"

text \<open>Unsigned 64-bit subtraction, as the source computes the paddings it reports.\<close>

definition sub64 :: "nat \<Rightarrow> nat \<Rightarrow> nat" where
  "sub64 a b = (a + 2 ^ 64 - b mod 2 ^ 64) mod 2 ^ 64"

subsection \<open>The offset writer\<close>

text \<open>
  Modelled from the spec: \<^verbatim>\<open>internalio.OffsetWriteSeeker\<close>, a writer on the file that
  starts at \<open>base\<close>; \<open>Position\<close> is the data cursor relative to \<open>base\<close>.
\<close>

record OffsetWriteSeeker =
  base :: nat
  offset :: nat

definition NewOffsetWriter :: "nat \<Rightarrow> OffsetWriteSeeker" where
  "NewOffsetWriter off = \<lparr>base = off, offset = off\<rparr>"

definition Position :: "OffsetWriteSeeker \<Rightarrow> nat" where
  "Position ow = offset ow - base ow"

definition SeekStart :: "OffsetWriteSeeker \<Rightarrow> nat \<Rightarrow> OffsetWriteSeeker" where
  "SeekStart ow off = ow\<lparr>offset := off + base ow\<rparr>"

definition Write :: "osfile \<times> OffsetWriteSeeker \<Rightarrow> sbyte list
    \<Rightarrow> failure option \<times> osfile \<times> OffsetWriteSeeker" where
  "Write w bs =
     (case WriteAt (fst w) bs (offset (snd w)) of
        ((n, err), fl) \<Rightarrow> (err, fl, (snd w)\<lparr>offset := offset (snd w) + n\<rparr>))"

text \<open>
  Modelled from the spec: \<^verbatim>\<open>util.LdWrite\<close>, which writes the varint of the total length
  and then each slice, and stops at the first write that fails.
\<close>

fun write_each :: "osfile \<times> OffsetWriteSeeker \<Rightarrow> sbyte list list
    \<Rightarrow> failure option \<times> osfile \<times> OffsetWriteSeeker" where
  "write_each w [] = (None, w)"
| "write_each w (s # ss) =
     (case Write w s of
        (Some e, w') \<Rightarrow> (Some e, w')
      | (None, w') \<Rightarrow> write_each w' ss)"

definition LdWrite :: "osfile \<times> OffsetWriteSeeker \<Rightarrow> sbyte list list
    \<Rightarrow> failure option \<times> osfile \<times> OffsetWriteSeeker" where
  "LdWrite w d =
     (case Write w (enc (IVarint (sum_list (map length d)))) of
        (Some e, w') \<Rightarrow> (Some e, w')
      | (None, w') \<Rightarrow> write_each w' d)"

definition WriteHeader :: "CarHeader \<Rightarrow> osfile \<times> OffsetWriteSeeker
    \<Rightarrow> failure option \<times> osfile \<times> OffsetWriteSeeker" where
  "WriteHeader h w = LdWrite w [enc (ICarHeader (Roots h) (Version h))]"

text \<open>
  \<^verbatim>\<open>carv2.Header.WriteTo\<close> writes the characteristics (16 bytes) and then the three
  offsets (24 bytes).
\<close>

definition Header_WriteTo :: "Header \<Rightarrow> osfile \<times> OffsetWriteSeeker
    \<Rightarrow> failure option \<times> osfile \<times> OffsetWriteSeeker" where
  "Header_WriteTo h w = write_each w [take 16 (enc (IHeader h)), drop 16 (enc (IHeader h))]"

subsection \<open>The insertion index\<close>

text \<open>
  Modelled from the spec: the insertion index of \<^verbatim>\<open>v2/blockstore/insertionindex.go\<close>,
  a flat list of records (key, offset) in insertion order. \<open>ii_GetAll\<close> presents the
  offsets of the records whose multihash is the key's, in insertion order; \<open>ii_Get\<close>
  succeeds when there is one; \<open>hasExactCID\<close> looks for the whole key; \<open>flatten\<close> sorts
  the records by multihash, keeping the insertion order of equal ones.
\<close>

type_synonym insertionIndex = "(cid \<times> nat) list"

definition newInsertionIndex :: insertionIndex where
  "newInsertionIndex = []"

definition insertNoReplace :: "insertionIndex \<Rightarrow> cid \<Rightarrow> nat \<Rightarrow> insertionIndex" where
  "insertNoReplace ii key n = ii @ [(key, n)]"

definition ii_GetAll :: "insertionIndex \<Rightarrow> cid \<Rightarrow> nat list" where
  "ii_GetAll ii key = map snd (filter (\<lambda>r. Hash (fst r) = Hash key) ii)"

definition ii_Get :: "insertionIndex \<Rightarrow> cid \<Rightarrow> failure + nat" where
  "ii_Get ii key =
     (case ii_GetAll ii key of [] \<Rightarrow> Inl (Err ErrNotFound) | off # _ \<Rightarrow> Inr off)"

definition hasExactCID :: "insertionIndex \<Rightarrow> cid \<Rightarrow> bool" where
  "hasExactCID ii key = (key \<in> set (map fst ii))"

definition flatten :: "insertionIndex \<Rightarrow> (cid \<times> nat) list" where
  "flatten ii = sort_key (\<lambda>r. Hash (fst r)) ii"

text \<open>
  Modelled from the spec: the contract of \<^verbatim>\<open>index.Index\<close>. An index presents, for a
  key, the candidate offsets in its order; \<^verbatim>\<open>GetAll\<close> calls the visitor on each until
  the visitor returns false, and fails with \<^verbatim>\<open>ErrNotFound\<close> when there is none. The
  visitor's captured variables are the state \<open>s\<close>.
\<close>

type_synonym index = "cid \<Rightarrow> nat list"

fun visit :: "(nat \<Rightarrow> 's \<Rightarrow> bool \<times> 's) \<Rightarrow> nat list \<Rightarrow> 's \<Rightarrow> 's" where
  "visit fn [] s = s"
| "visit fn (off # offs) s =
     (case fn off s of (True, s') \<Rightarrow> visit fn offs s' | (False, s') \<Rightarrow> s')"

definition GetAll :: "index \<Rightarrow> cid \<Rightarrow> (nat \<Rightarrow> 's \<Rightarrow> bool \<times> 's) \<Rightarrow> 's \<Rightarrow> failure option \<times> 's" where
  "GetAll ix key fn s =
     (if ix key = [] then (Some (Err ErrNotFound), s) else (None, visit fn (ix key) s))"

subsection \<open>The read-only store\<close>

record ReadOptions =
  ZeroLengthSectionAsEOF :: bool
  BlockstoreUseWholeCIDs :: bool

record WriteOptions =
  DataPadding :: nat
  IndexPadding :: nat
  BlockstoreAllowDuplicatePuts :: bool

text \<open>
  \<^verbatim>\<open>ReadOnly\<close>: the backing is the file read from \<open>origin\<close>, where the CARv1 payload
  starts; \<open>ro_idx\<close> is the index of the payload; \<open>ro_opts\<close> are the read options. The
  mutex of the source orders concurrent calls; the model is of one call at a time.
\<close>

record ReadOnly =
  backing :: osfile
  origin :: nat
  ro_idx :: index
  ro_opts :: ReadOptions

definition readBlock :: "ReadOnly \<Rightarrow> nat \<Rightarrow> failure + (cid \<times> bytes)" where
  "readBlock b i = read_at (backing b) (origin b + i) ReadNode"

definition ReadOnly_DeleteBlock :: "ReadOnly \<Rightarrow> cid \<Rightarrow> failure option \<times> ReadOnly" where
  "ReadOnly_DeleteBlock b key = (Some (Panic ErrWriteOnReadOnly), b)"

text \<open>The visitor of \<open>Has\<close>; its state is \<open>(fnFound, fnErr)\<close>.\<close>

definition Has_visitor :: "ReadOnly \<Rightarrow> cid \<Rightarrow> nat \<Rightarrow> bool \<times> failure option
    \<Rightarrow> bool \<times> (bool \<times> failure option)" where
  "Has_visitor b key off s =
     (case read_at (backing b) (origin b + off) dec_varint of
        Inl e \<Rightarrow> (False, (fst s, Some e))
      | Inr (l, m) \<Rightarrow>
          (case read_at (backing b) (origin b + off + m) dec_cid of
             Inl e \<Rightarrow> (False, (fst s, Some e))
           | Inr (n, readCid) \<Rightarrow>
               if BlockstoreUseWholeCIDs (ro_opts b)
               then (\<not> (readCid = key), (readCid = key, snd s))
               else (False, (Hash readCid = Hash key, snd s))))"

definition ReadOnly_Has :: "ReadOnly \<Rightarrow> cid \<Rightarrow> failure + bool" where
  "ReadOnly_Has b key =
     (case GetAll (ro_idx b) key (Has_visitor b key) (False, None) of
        (Some e, s) \<Rightarrow> if e = Err ErrNotFound then Inr False else Inl e
      | (None, (fnFound, fnErr)) \<Rightarrow>
          (case fnErr of None \<Rightarrow> Inr fnFound | Some e \<Rightarrow> Inl e))"

text \<open>The visitor of \<open>Get\<close>; its state is \<open>(fnData, fnErr)\<close>, and \<open>None\<close> is a nil slice.\<close>

definition Get_visitor :: "ReadOnly \<Rightarrow> cid \<Rightarrow> nat \<Rightarrow> bytes option \<times> failure option
    \<Rightarrow> bool \<times> (bytes option \<times> failure option)" where
  "Get_visitor b key off s =
     (case readBlock b off of
        Inl e \<Rightarrow> (False, (fst s, Some e))
      | Inr (readCid, d) \<Rightarrow>
          if BlockstoreUseWholeCIDs (ro_opts b)
          then (if readCid = key then (False, (Some d, snd s)) else (True, s))
          else (if Hash readCid = Hash key then (False, (Some d, snd s)) else (False, s)))"

definition ReadOnly_Get :: "ReadOnly \<Rightarrow> cid \<Rightarrow> failure + block" where
  "ReadOnly_Get b key =
     (case GetAll (ro_idx b) key (Get_visitor b key) (None, None) of
        (Some e, s) \<Rightarrow> if e = Err ErrNotFound then Inl (Err ErrNotFound) else Inl e
      | (None, (fnData, Some e)) \<Rightarrow> Inl e
      | (None, (None, None)) \<Rightarrow> Inl (Err ErrNotFound)
      | (None, (Some d, None)) \<Rightarrow> Inr (Block key d))"

text \<open>The visitor of \<open>GetSize\<close>; its state is \<open>(fnSize, fnErr)\<close>.\<close>

definition GetSize_visitor :: "ReadOnly \<Rightarrow> cid \<Rightarrow> nat \<Rightarrow> int \<times> failure option
    \<Rightarrow> bool \<times> (int \<times> failure option)" where
  "GetSize_visitor b key off s =
     (case read_at (backing b) (origin b + off) dec_varint of
        Inl e \<Rightarrow> (False, (fst s, Some e))
      | Inr (sectionLen, m) \<Rightarrow>
          (case read_at (backing b) (origin b + off + m) dec_cid of
             Inl e \<Rightarrow> (False, (fst s, Some e))
           | Inr (cidLen, readCid) \<Rightarrow>
               if BlockstoreUseWholeCIDs (ro_opts b)
               then (if readCid = key then (False, (int sectionLen - int cidLen, snd s))
                     else (True, s))
               else (if Hash readCid = Hash key
                     then (False, (int sectionLen - int cidLen, snd s))
                     else (False, s))))"

definition ReadOnly_GetSize :: "ReadOnly \<Rightarrow> cid \<Rightarrow> failure + int" where
  "ReadOnly_GetSize b key =
     (case GetAll (ro_idx b) key (GetSize_visitor b key) (- 1, None) of
        (Some e, s) \<Rightarrow> if e = Err ErrNotFound then Inl (Err ErrNotFound) else Inl e
      | (None, (fnSize, Some e)) \<Rightarrow> Inl e
      | (None, (fnSize, None)) \<Rightarrow> if fnSize = - 1 then Inl (Err ErrNotFound) else Inr fnSize)"

definition ReadOnly_Put :: "ReadOnly \<Rightarrow> block \<Rightarrow> failure option \<times> ReadOnly" where
  "ReadOnly_Put b blk = (Some (Panic ErrWriteOnReadOnly), b)"

definition ReadOnly_PutMany :: "ReadOnly \<Rightarrow> block list \<Rightarrow> failure option \<times> ReadOnly" where
  "ReadOnly_PutMany b blks = (Some (Panic ErrWriteOnReadOnly), b)"

text \<open>
  \<open>AllKeysChan\<close>: the keys that the channel delivers to a consumer that drains it and
  never cancels. \<open>pos\<close> is the position of the reader in the file. The multicodec
  \<^verbatim>\<open>cid.Raw\<close> is \<open>0x55\<close>.
\<close>

definition RawCodec :: nat where
  "RawCodec = 85"

function AllKeys_loop :: "ReadOnly \<Rightarrow> nat \<Rightarrow> cid list" where
  "AllKeys_loop b pos =
     (case read_at (backing b) pos dec_varint of
        Inl e \<Rightarrow> []
      | Inr (l, m) \<Rightarrow>
          if l = 0 then []
          else (case read_at (backing b) (pos + m) dec_cid of
                  Inl e \<Rightarrow> []
                | Inr (n, c) \<Rightarrow>
                    (if \<not> BlockstoreUseWholeCIDs (ro_opts b) then Cid RawCodec (Hash c) else c)
                      # AllKeys_loop b (pos + m + l)))"
  by pat_completeness auto

lemma varint_len_pos: "0 < varint_len n"
  by (subst varint_len.simps) simp

lemma dec_varint_consumes: "dec_varint xs = Inr (l, m) \<Longrightarrow> xs \<noteq> [] \<and> 0 < m"
  by (auto simp: dec_varint_def varint_len_pos
      split: list.splits sbyte.splits sum.splits item.splits if_splits)

lemma read_varint_bound:
  "read_at fl pos dec_varint = Inr (l, m) \<Longrightarrow> pos < length (content fl) \<and> 0 < m"
  by (auto simp: read_at_def dest: dec_varint_consumes split: if_splits)

termination AllKeys_loop
  apply (relation "measure (\<lambda>(b, pos). length (content (backing b)) - pos)")
   apply simp
  apply (auto dest!: read_varint_bound)
  done

declare AllKeys_loop.simps [simp del]

definition ReadOnly_AllKeysChan :: "ReadOnly \<Rightarrow> failure + cid list" where
  "ReadOnly_AllKeysChan b =
     (case read_at (backing b) (origin b) ReadHeader of
        Inl e \<Rightarrow> Inl e
      | Inr h \<Rightarrow> Inr (AllKeys_loop b (origin b + carv1_HeaderSize h)))"

definition ReadOnly_Roots :: "ReadOnly \<Rightarrow> failure + cid list" where
  "ReadOnly_Roots b =
     (case read_at (backing b) (origin b) ReadHeader of
        Inl e \<Rightarrow> Inl e
      | Inr h \<Rightarrow> Inr (Roots h))"

subsection \<open>The read-write store\<close>

text \<open>
  \<^verbatim>\<open>ReadWrite\<close>. The source embeds a \<^verbatim>\<open>ReadOnly\<close> whose backing reads the same file
  from the data offset and whose index is the same insertion index; the model keeps the
  file and the index once and derives that \<^verbatim>\<open>ReadOnly\<close> from them (\<open>ReadOnly_of\<close>), so
  that a write is seen by the reads that follow, as through the shared pointers.
\<close>

record ReadWrite =
  rw_f :: osfile
  dataWriter :: OffsetWriteSeeker
  idx :: insertionIndex
  header :: Header
  ropts :: ReadOptions
  wopts :: WriteOptions

definition ReadOnly_of :: "ReadWrite \<Rightarrow> ReadOnly" where
  "ReadOnly_of b =
     \<lparr>backing = rw_f b, origin = DataOffset (header b), ro_idx = ii_GetAll (idx b),
      ro_opts = ropts b\<rparr>"

definition initWithRoots :: "ReadWrite \<Rightarrow> cid list \<Rightarrow> failure option \<times> ReadWrite" where
  "initWithRoots b roots =
     (case WriteAt (rw_f b) (enc IPragma) 0 of
        ((n, Some e), fl) \<Rightarrow> (Some e, b\<lparr>rw_f := fl\<rparr>)
      | ((n, None), fl) \<Rightarrow>
          (case WriteHeader (CarHeader roots 1) (fl, dataWriter b) of
             (err, fl', w') \<Rightarrow> (err, b\<lparr>rw_f := fl', dataWriter := w'\<rparr>)))"

definition unfinalize :: "ReadWrite \<Rightarrow> failure option \<times> ReadWrite" where
  "unfinalize b =
     (case Header_WriteTo zero_header (rw_f b, NewOffsetWriter PragmaSize) of
        (err, fl, w) \<Rightarrow> (err, b\<lparr>rw_f := fl\<rparr>))"

text \<open>
  The scan of \<open>resumeWithRoots\<close>: \<open>sectionOffset\<close> is the position of the reader relative
  to the data offset, as \<^verbatim>\<open>Seek\<close> returns it.
\<close>

function resume_loop :: "ReadWrite \<Rightarrow> nat \<Rightarrow> failure + (ReadWrite \<times> nat)" where
  "resume_loop b sectionOffset =
     (case read_at (rw_f b) (DataOffset (header b) + sectionOffset) dec_varint of
        Inl e \<Rightarrow> if e = Err ErrEOF then Inr (b, sectionOffset) else Inl e
      | Inr (l, m) \<Rightarrow>
          if l = 0
          then (if ZeroLengthSectionAsEOF (ropts b) then Inr (b, sectionOffset)
                else Inl (Err ErrMalformedPadding))
          else (case read_at (rw_f b) (DataOffset (header b) + sectionOffset + m) dec_cid of
                  Inl e \<Rightarrow> Inl e
                | Inr (n, c) \<Rightarrow>
                    resume_loop (b\<lparr>idx := insertNoReplace (idx b) c sectionOffset\<rparr>)
                      (sectionOffset + m + n + l - n)))"
  by pat_completeness auto
termination
  apply (relation "measure (\<lambda>(b, so). length (content (rw_f b)) - (DataOffset (header b) + so))")
   apply simp
  apply (auto dest!: read_varint_bound)
  done

declare resume_loop.simps [simp del]

definition resumeWithRoots :: "ReadWrite \<Rightarrow> cid list \<Rightarrow> failure option \<times> ReadWrite" where
  "resumeWithRoots b roots =
     (case read_at (rw_f b) 0 ReadVersion of
        Inl e \<Rightarrow> (Some e, b)
      | Inr version \<Rightarrow>
          if version \<noteq> 2 then (Some (Err (ErrNotACarV2 version)), b)
          else
            (case
               (case read_at (rw_f b) PragmaSize Header_ReadFrom of
                  Inl e \<Rightarrow> (None, b)
                | Inr headerInFile \<Rightarrow>
                    if DataOffset headerInFile \<noteq> 0
                    then
                      (if DataOffset headerInFile \<noteq> DataOffset (header b)
                       then
                         (Some (Err (ErrPaddingMismatch
                            (sub64 (sub64 (DataOffset headerInFile) PragmaSize) HeaderSize)
                            (sub64 (sub64 (DataOffset (header b)) PragmaSize) HeaderSize))), b)
                       else if DataSize headerInFile \<noteq> 0
                       then
                         (case Truncate (rw_f b) (DataOffset headerInFile + DataSize headerInFile) of
                            (Some e, fl) \<Rightarrow> (Some e, b\<lparr>rw_f := fl\<rparr>)
                          | (None, fl) \<Rightarrow> unfinalize (b\<lparr>rw_f := fl\<rparr>))
                       else (Some (Err ErrCorruptHeader), b))
                    else (None, b))
             of
               (Some e, b') \<Rightarrow> (Some e, b')
             | (None, b') \<Rightarrow>
                 (case read_at (rw_f b') (DataOffset (header b')) ReadHeader of
                    Inl e \<Rightarrow> (Some e, b')
                  | Inr h \<Rightarrow>
                      if \<not> Matches h (CarHeader roots 1) then (Some (Err ErrRootMismatch), b')
                      else
                        (case resume_loop b' (carv1_HeaderSize h) of
                           Inl e \<Rightarrow> (Some e, b')
                         | Inr (b'', sectionOffset) \<Rightarrow>
                             (None, b''\<lparr>dataWriter := SeekStart (dataWriter b'') sectionOffset\<rparr>)))))"

text \<open>
  \<open>OpenReadWrite\<close> on the file at the path: a file that does not exist is created empty.
  The options arrive applied, as the two records. On a failure the file is closed, and the
  result carries the file as the call leaves it.
\<close>

definition OpenReadWrite :: "osfile \<Rightarrow> cid list \<Rightarrow> ReadOptions \<Rightarrow> WriteOptions
    \<Rightarrow> (failure \<times> osfile) + ReadWrite" where
  "OpenReadWrite fl roots ro wo =
     (let resume = (length (content fl) \<noteq> 0);
          h0 = NewHeader 0;
          h1 = (if DataPadding wo > 0 then WithDataPadding h0 (DataPadding wo) else h0);
          h2 = (if IndexPadding wo > 0 then WithIndexPadding h1 (IndexPadding wo) else h1);
          rwbs = \<lparr>rw_f = fl, dataWriter = NewOffsetWriter (DataOffset h2),
                  idx = newInsertionIndex, header = h2, ropts = ro, wopts = wo\<rparr>
      in case (if resume then resumeWithRoots rwbs roots else initWithRoots rwbs roots) of
           (Some e, b) \<Rightarrow> Inl (e, Close (rw_f b))
         | (None, b) \<Rightarrow> Inr b)"

definition finalized :: "ReadWrite \<Rightarrow> bool" where
  "finalized b = (DataSize (header b) \<noteq> 0)"

fun PutMany_loop :: "ReadWrite \<Rightarrow> block list \<Rightarrow> failure option \<times> ReadWrite" where
  "PutMany_loop b [] = (None, b)"
| "PutMany_loop b (bl # blks) =
     (let c = BlockCid bl in
      if \<not> BlockstoreAllowDuplicatePuts (wopts b) \<and>
         (BlockstoreUseWholeCIDs (ropts b) \<and> hasExactCID (idx b) c) then PutMany_loop b blks
      else if \<not> BlockstoreAllowDuplicatePuts (wopts b) \<and>
         (\<not> BlockstoreUseWholeCIDs (ropts b) \<and> \<not> isl (ii_Get (idx b) c)) then PutMany_loop b blks
      else
        (let n = Position (dataWriter b) in
         case LdWrite (rw_f b, dataWriter b) [enc (ICid c), enc_raw (RawData bl)] of
           (Some e, fl, w) \<Rightarrow> (Some e, b\<lparr>rw_f := fl, dataWriter := w\<rparr>)
         | (None, fl, w) \<Rightarrow>
             PutMany_loop (b\<lparr>rw_f := fl, dataWriter := w, idx := insertNoReplace (idx b) c n\<rparr>)
               blks))"

definition PutMany :: "ReadWrite \<Rightarrow> block list \<Rightarrow> failure option \<times> ReadWrite" where
  "PutMany b blks = (if finalized b then (Some (Err ErrFinalized), b) else PutMany_loop b blks)"

definition Put :: "ReadWrite \<Rightarrow> block \<Rightarrow> failure option \<times> ReadWrite" where
  "Put b blk = PutMany b [blk]"

text \<open>Modelled from the spec: \<^verbatim>\<open>index.WriteTo\<close>, which writes the flattened index.\<close>

definition index_WriteTo :: "(cid \<times> nat) list \<Rightarrow> osfile \<times> OffsetWriteSeeker
    \<Rightarrow> failure option \<times> osfile \<times> OffsetWriteSeeker" where
  "index_WriteTo fi w = Write w (enc (IIndex fi))"

definition Finalize :: "ReadWrite \<Rightarrow> failure option \<times> ReadWrite" where
  "Finalize b =
     (if DataSize (header b) \<noteq> 0 then (Some (Err ErrFinalizedTwice), b)
      else
        (let b1 = b\<lparr>header := WithDataSize (header b) (Position (dataWriter b))\<rparr>;
             fi = flatten (idx b1)
         in case index_WriteTo fi (rw_f b1, NewOffsetWriter (IndexOffset (header b1))) of
              (Some e, fl, w) \<Rightarrow> (Some e, b1\<lparr>rw_f := Close fl\<rparr>)
            | (None, fl, w) \<Rightarrow>
                (case Header_WriteTo (header b1) (fl, NewOffsetWriter PragmaSize) of
                   (err, fl', w') \<Rightarrow> (err, b1\<lparr>rw_f := Close fl'\<rparr>))))"

definition AllKeysChan :: "ReadWrite \<Rightarrow> failure + cid list" where
  "AllKeysChan b =
     (if finalized b then Inl (Err ErrFinalized) else ReadOnly_AllKeysChan (ReadOnly_of b))"

definition Has :: "ReadWrite \<Rightarrow> cid \<Rightarrow> failure + bool" where
  "Has b key = (if finalized b then Inl (Err ErrFinalized) else ReadOnly_Has (ReadOnly_of b) key)"

definition Get :: "ReadWrite \<Rightarrow> cid \<Rightarrow> failure + block" where
  "Get b key = (if finalized b then Inl (Err ErrFinalized) else ReadOnly_Get (ReadOnly_of b) key)"

definition GetSize :: "ReadWrite \<Rightarrow> cid \<Rightarrow> failure + int" where
  "GetSize b key =
     (if finalized b then Inl (Err ErrFinalized) else ReadOnly_GetSize (ReadOnly_of b) key)"

subsection \<open>Sections on disk, and the stores of the examples\<close>

text \<open>
  The on-disk form of a section: the varint of the length of the key and the payload,
  the key, the payload; \<open>sec_len\<close> is its length.
\<close>

definition enc_section :: "cid \<times> bytes \<Rightarrow> sbyte list" where
  "enc_section s = enc (IVarint (cid_len (fst s) + length (snd s))) @ enc (ICid (fst s)) @ enc_raw (snd s)"

definition sec_len :: "cid \<times> bytes \<Rightarrow> nat" where
  "sec_len s = varint_len (cid_len (fst s) + length (snd s)) + cid_len (fst s) + length (snd s)"

text \<open>A read-only store over one section, whose index presents the offsets 0 and 99.\<close>

definition example_opts :: ReadOptions where
  "example_opts = \<lparr>ZeroLengthSectionAsEOF = False, BlockstoreUseWholeCIDs = False\<rparr>"

definition example_ro :: ReadOnly where
  "example_ro =
     \<lparr>backing = \<lparr>content = enc_section (Cid 85 [1], [7, 7]), budget = None, closed = False\<rparr>,
      origin = 0, ro_idx = (\<lambda>k. [0, 99]), ro_opts = example_opts\<rparr>"

subsection \<open>Definitions for the proofs\<close>

text \<open>
  \<open>same_key\<close> is the matching policy of a store: whole keys with \<open>UseWholeCIDs\<close>,
  multihashes without. \<open>Puts\<close> is a sequence of \<open>Put\<close> calls that stops at the first
  failure. \<open>dedup_skips\<close> is the condition under which \<open>PutMany\<close> skips a block.
  \<open>put_log\<close> lists the sections that a sequence of blocks adds to the sections \<open>log\<close>
  already stored. \<open>stored b log\<close> holds when the store is open and not finalized, its
  writer stands at the end of the file, the CARv2 header on file is zero, and the entries
  of its index point, in order, to the sections \<open>log\<close>; \<open>lay b roots log\<close> adds that the
  file is exactly the pragma, the zero header and padding, the CARv1 header and the
  sections.
\<close>

definition same_key :: "ReadOptions \<Rightarrow> cid \<Rightarrow> cid \<Rightarrow> bool" where
  "same_key ro k k' = (if BlockstoreUseWholeCIDs ro then k = k' else Hash k = Hash k')"

definition entry_ok :: "osfile \<Rightarrow> nat \<Rightarrow> cid \<times> nat \<Rightarrow> cid \<times> bytes \<Rightarrow> bool" where
  "entry_ok fl D r s =
     (fst r = fst s \<and> take (sec_len s) (drop (D + snd r) (content fl)) = enc_section s)"

definition stored :: "ReadWrite \<Rightarrow> (cid \<times> bytes) list \<Rightarrow> bool" where
  "stored b log =
     (\<not> closed (rw_f b) \<and> DataSize (header b) = 0 \<and>
      PragmaSize + HeaderSize \<le> DataOffset (header b) \<and>
      DataOffset (header b) \<le> IndexOffset (header b) \<and>
      base (dataWriter b) = DataOffset (header b) \<and>
      DataOffset (header b) < offset (dataWriter b) \<and>
      offset (dataWriter b) = length (content (rw_f b)) \<and>
      take (PragmaSize + HeaderSize) (content (rw_f b)) = enc IPragma @ replicate HeaderSize (Raw 0) \<and>
      list_all2 (entry_ok (rw_f b) (DataOffset (header b))) (idx b) log)"

fun put_log :: "ReadOptions \<Rightarrow> WriteOptions \<Rightarrow> (cid \<times> bytes) list \<Rightarrow> block list
    \<Rightarrow> (cid \<times> bytes) list" where
  "put_log ro wo log [] = log"
| "put_log ro wo log (bl # blks) =
     (if \<not> BlockstoreAllowDuplicatePuts wo \<and>
         find (\<lambda>s. same_key ro (fst s) (BlockCid bl)) log \<noteq> None
      then put_log ro wo log blks
      else put_log ro wo (log @ [(BlockCid bl, RawData bl)]) blks)"

fun Puts :: "ReadWrite \<Rightarrow> block list \<Rightarrow> failure option \<times> ReadWrite" where
  "Puts b [] = (None, b)"
| "Puts b (blk # blks) =
     (case Put b blk of (None, b') \<Rightarrow> Puts b' blks | (Some e, b') \<Rightarrow> (Some e, b'))"

definition dedup_skips :: "ReadWrite \<Rightarrow> cid \<Rightarrow> bool" where
  "dedup_skips b c =
     (\<not> BlockstoreAllowDuplicatePuts (wopts b) \<and>
      ((BlockstoreUseWholeCIDs (ropts b) \<and> hasExactCID (idx b) c) \<or>
       (\<not> BlockstoreUseWholeCIDs (ropts b) \<and> \<not> isl (ii_Get (idx b) c))))"

definition configured_header :: "WriteOptions \<Rightarrow> Header" where
  "configured_header wo =
     \<lparr>Characteristics = 0, DataOffset = PragmaSize + HeaderSize + DataPadding wo, DataSize = 0,
      IndexOffset = PragmaSize + HeaderSize + DataPadding wo + IndexPadding wo\<rparr>"

definition enc_carheader :: "cid list \<Rightarrow> sbyte list" where
  "enc_carheader roots = enc (IVarint (car_header_len roots 1)) @ enc (ICarHeader roots 1)"

fun sec_offsets :: "nat \<Rightarrow> (cid \<times> bytes) list \<Rightarrow> nat list" where
  "sec_offsets p [] = []"
| "sec_offsets p (s # ss) = p # sec_offsets (p + sec_len s) ss"

definition idx_of :: "nat \<Rightarrow> (cid \<times> bytes) list \<Rightarrow> insertionIndex" where
  "idx_of p log = zip (map fst log) (sec_offsets p log)"

definition lay :: "ReadWrite \<Rightarrow> cid list \<Rightarrow> (cid \<times> bytes) list \<Rightarrow> bool" where
  "lay b roots log =
     (stored b log \<and> header b = configured_header (wopts b) \<and>
      content (rw_f b) =
        enc IPragma @ replicate (DataOffset (header b) - PragmaSize) (Raw 0) @
        enc_carheader roots @ concat (map enc_section log) \<and>
      idx b = idx_of (carv1_HeaderSize (CarHeader roots 1)) log)"


text \<open>
  The stores of the examples: a store opened on an empty file, and the store after two
  \<open>Put\<close> calls. \<open>reachable\<close> are the stores that a session reaches from a file it
  created: the store that \<open>OpenReadWrite\<close> returns on an empty file, and every store that
  a \<open>PutMany\<close> call leaves, whether it succeeded or not.
\<close>

definition example_file :: osfile where
  "example_file = \<lparr>content = [], budget = None, closed = False\<rparr>"

definition example_wopts :: WriteOptions where
  "example_wopts = \<lparr>DataPadding = 0, IndexPadding = 0, BlockstoreAllowDuplicatePuts = False\<rparr>"

definition example_store :: ReadWrite where
  "example_store = projr (OpenReadWrite example_file [Cid 85 [1]] example_opts example_wopts)"

definition example_blocks :: "block list" where
  "example_blocks = [Block (Cid 85 [2]) [5], Block (Cid 85 [1]) [9]]"

definition example_after :: ReadWrite where
  "example_after = snd (Puts example_store example_blocks)"

inductive reachable :: "ReadWrite \<Rightarrow> bool" where
  fresh: "content fl = [] \<Longrightarrow> OpenReadWrite fl roots ro wo = Inr b \<Longrightarrow> reachable b"
| put: "reachable b \<Longrightarrow> PutMany b blks = (e, b') \<Longrightarrow> reachable b'"


definition example_whole :: ReadOptions where
  "example_whole = \<lparr>ZeroLengthSectionAsEOF = False, BlockstoreUseWholeCIDs = True\<rparr>"

definition example_small_file :: osfile where
  "example_small_file = \<lparr>content = [], budget = Some 36, closed = False\<rparr>"

definition example_small :: ReadWrite where
  "example_small = projr (OpenReadWrite example_small_file [] example_opts example_wopts)"

definition example_small_1 :: ReadWrite where
  "example_small_1 = snd (PutMany example_small [Block (Cid 85 [2]) [5]])"

definition example_small_2 :: ReadWrite where
  "example_small_2 = snd (PutMany example_small_1 [Block (Cid 85 [1]) [9]])"

definition example_twins :: "block list" where
  "example_twins = [Block (Cid 85 [1]) [9], Block (Cid 112 [1]) [7]]"

definition example_multihash :: ReadWrite where
  "example_multihash = snd (Puts example_store example_twins)"

definition example_whole_store :: ReadWrite where
  "example_whole_store = projr (OpenReadWrite example_file [Cid 85 [1]] example_whole example_wopts)"

definition example_whole_after :: ReadWrite where
  "example_whole_after = snd (Puts example_whole_store example_twins)"



text \<open>
  Two sessions that the device cuts inside their second \<open>Put\<close>, and the files they leave:
  \<open>example_cut_file\<close> ends inside the key of the torn section, \<open>example_torn_file\<close> after
  its key and before its payload; \<open>example_resumed\<close> is the store that \<open>OpenReadWrite\<close>
  returns on the latter. \<open>example_reopened\<close> is the store of \<open>example_after\<close> under other
  options, and \<open>example_finalized\<close> the store that \<open>Finalize\<close> leaves of it. \<open>opened\<close> are
  the stores that the operations produce: the store that \<open>OpenReadWrite\<close> returns, on a new
  file or resuming, and every store that a \<open>PutMany\<close> or a \<open>Finalize\<close> call leaves.
\<close>

definition example_cut_file :: osfile where
  "example_cut_file = (rw_f example_small_2)\<lparr>budget := None\<rparr>"

definition example_short_file :: osfile where
  "example_short_file = \<lparr>content = [], budget = Some 38, closed = False\<rparr>"

definition example_short :: ReadWrite where
  "example_short = projr (OpenReadWrite example_short_file [] example_opts example_wopts)"

definition example_short_1 :: ReadWrite where
  "example_short_1 = snd (Put example_short (Block (Cid 85 [2]) [5]))"

definition example_short_2 :: ReadWrite where
  "example_short_2 = snd (Put example_short_1 (Block (Cid 85 [1]) [9]))"

definition example_torn_file :: osfile where
  "example_torn_file = (rw_f example_short_2)\<lparr>budget := None\<rparr>"

definition example_resumed :: ReadWrite where
  "example_resumed = projr (OpenReadWrite example_torn_file [] example_opts example_wopts)"

definition example_other_wopts :: WriteOptions where
  "example_other_wopts = \<lparr>DataPadding = 0, IndexPadding = 4, BlockstoreAllowDuplicatePuts = True\<rparr>"

definition example_other_opts :: ReadOptions where
  "example_other_opts = \<lparr>ZeroLengthSectionAsEOF = True, BlockstoreUseWholeCIDs = False\<rparr>"

definition example_reopened :: ReadWrite where
  "example_reopened =
     example_after\<lparr>header := configured_header example_other_wopts, ropts := example_other_opts,
       wopts := example_other_wopts\<rparr>"

definition example_finalized :: ReadWrite where
  "example_finalized = snd (Finalize example_after)"

inductive opened :: "ReadWrite \<Rightarrow> bool" where
  by_open: "OpenReadWrite fl roots ro wo = Inr b \<Longrightarrow> opened b"
| by_put: "opened b \<Longrightarrow> PutMany b blks = (e, b') \<Longrightarrow> opened b'"
| by_finalize: "opened b \<Longrightarrow> Finalize b = (e, b') \<Longrightarrow> opened b'"


text \<open>
  A device that accepts no byte beyond its budget, which is also a crash after that many
  bytes: \<open>fits\<close> holds when it accepts \<open>n\<close> more bytes, \<open>accepted\<close> are the bytes of a write
  that it stores, \<open>remaining\<close> is the budget after a write of \<open>n\<close> bytes, and \<open>put_at\<close> is the
  file after a write, which changes nothing when no byte is stored. \<open>reopened\<close> is a closed
  file as the next process opens it. \<open>example_crashed\<close> is the store that \<open>Finalize\<close> leaves
  when the device accepts two more bytes, and \<open>example_padded\<close> are options with another
  data padding.
\<close>

definition fits :: "nat option \<Rightarrow> nat \<Rightarrow> bool" where
  "fits bo n = (case bo of None \<Rightarrow> True | Some k \<Rightarrow> n \<le> k)"

definition accepted :: "nat option \<Rightarrow> sbyte list \<Rightarrow> sbyte list" where
  "accepted bo bs = (case bo of None \<Rightarrow> bs | Some k \<Rightarrow> take k bs)"

definition remaining :: "nat option \<Rightarrow> nat \<Rightarrow> nat option" where
  "remaining bo n = map_option (\<lambda>k. k - n) bo"

definition put_at :: "sbyte list \<Rightarrow> nat \<Rightarrow> sbyte list \<Rightarrow> sbyte list" where
  "put_at c off bs = (if bs = [] then c else write_bytes c off bs)"

definition reopened :: "osfile \<Rightarrow> osfile" where
  "reopened fl = fl\<lparr>closed := False\<rparr>"

definition example_crashed :: ReadWrite where
  "example_crashed = snd (Finalize example_small_1)"



section \<open>Properties\<close>

subsection \<open>Writing and decoding\<close>

lemma write_bytes_at_end: "write_bytes c (length c) bs = c @ bs"
  by (simp add: write_bytes_def)

lemma length_write_bytes: "length (write_bytes c off bs) = max (length c) (off + length bs)"
  by (auto simp: write_bytes_def)

lemma take_write_bytes_before:
  "n \<le> off \<Longrightarrow> n \<le> length c \<Longrightarrow> take n (write_bytes c off bs) = take n c"
  by (simp add: write_bytes_def min_def)

lemma drop_write_bytes_at: "off \<le> length c \<Longrightarrow> drop off (write_bytes c off bs) = bs @ drop (off + length bs) c"
  by (simp add: write_bytes_def min_def)

lemma drop_write_bytes_beyond:
  "length c \<le> off \<Longrightarrow> drop off (write_bytes c off bs) = bs"
  by (simp add: write_bytes_def min_def)

lemma item_len_pos: "0 < item_len it"
  by (cases it)
    (simp_all add: PragmaSize_def HeaderSize_def varint_len_pos cid_len_def car_header_len_def
      index_len_def)

lemma length_enc: "length (enc it) = item_len it"
  by (cases it) (auto simp: enc_def HeaderSize_def zero_header_def varint_len.simps[of 0])

lemma enc_nonempty: "enc it \<noteq> []"
  using length_enc[of it] item_len_pos[of it] by auto

lemma enc_sym_head:
  assumes "it \<noteq> IVarint 0" and "it \<noteq> IHeader zero_header"
  shows "\<exists>xs. enc it = Sym it 0 # xs"
proof -
  obtain n where n: "item_len it = Suc n"
    using item_len_pos[of it] by (cases "item_len it") auto
  show ?thesis using assms by (simp add: enc_def n upt_conv_Cons del: upt_Suc)
qed

lemma item_at_enc:
  assumes "it \<noteq> IVarint 0" and "it \<noteq> IHeader zero_header"
  shows "item_at (enc it @ rest) = Inr it"
proof -
  obtain xs where xs: "enc it = Sym it 0 # xs"
    using enc_sym_head[OF assms] by blast
  have "take (item_len it) (enc it @ rest) = enc it"
    by (simp add: length_enc[symmetric])
  then show ?thesis
    by (simp add: xs)
qed

lemma dec_varint_enc: "dec_varint (enc (IVarint n) @ rest) = Inr (n, varint_len n)"
proof (cases "n = 0")
  case True
  then show ?thesis by (simp add: dec_varint_def enc_def varint_len.simps[of 0])
next
  case False
  then obtain xs where xs: "enc (IVarint n) = Sym (IVarint n) 0 # xs"
    using enc_sym_head[of "IVarint n"] by auto
  have "item_at (enc (IVarint n) @ rest) = Inr (IVarint n)"
    using False by (intro item_at_enc) auto
  then show ?thesis
    by (simp add: dec_varint_def xs)
qed

lemma dec_cid_enc: "dec_cid (enc (ICid c) @ rest) = Inr (cid_len c, c)"
  by (simp add: dec_cid_def item_at_enc)

lemma raw_of_enc_raw: "raw_of (enc_raw d) = Inr d"
  by (induction d) (simp_all add: enc_raw_def)

lemma length_enc_section: "length (enc_section s) = sec_len s"
  by (simp add: enc_section_def sec_len_def length_enc enc_raw_def)

lemma ReadNode_enc_section: "ReadNode (enc_section (c, d) @ rest) = Inr (c, d)"
proof -
  let ?L = "cid_len c + length d"
  have v: "dec_varint (enc_section (c, d) @ rest) = Inr (?L, varint_len ?L)"
    by (simp add: enc_section_def dec_varint_enc)
  have dr: "drop (varint_len ?L) (enc_section (c, d) @ rest) = enc (ICid c) @ enc_raw d @ rest"
    by (simp add: enc_section_def length_enc[of "IVarint ?L", simplified, symmetric])
  have tk: "take ?L (enc (ICid c) @ enc_raw d @ rest) = enc (ICid c) @ enc_raw d"
    by (simp add: length_enc enc_raw_def)
  have ld: "LdRead (enc_section (c, d) @ rest) = Inr (enc (ICid c) @ enc_raw d)"
    by (simp only: LdRead_def v dr tk sum.case prod.case) (simp add: length_enc enc_raw_def)
  have dc: "drop (cid_len c) (enc (ICid c) @ enc_raw d) = enc_raw d"
    by (simp add: length_enc[of "ICid c", simplified, symmetric])
  show ?thesis
    by (simp only: ReadNode_def ld dec_cid_enc dc raw_of_enc_raw sum.case prod.case)
qed


subsection \<open>The sections of a store and its index\<close>

lemma Write_append:
  assumes "offset w = length (content fl)" and "Write (fl, w) bs = (e, fl', w')"
  shows "closed fl' = closed fl \<and> base w' = base w \<and> offset w' = length (content fl') \<and>
         (\<exists>k. content fl' = content fl @ take k bs) \<and>
         (e = None \<longrightarrow> \<not> closed fl \<and> content fl' = content fl @ bs)"
  using assms
  by (auto simp: Write_def WriteAt_def write_bytes_at_end split: if_splits option.splits
      intro: exI[of _ 0] exI[of _ "length bs"])

lemma write_each_append:
  assumes "offset w = length (content fl)" and "write_each (fl, w) ss = (e, fl', w')"
  shows "closed fl' = closed fl \<and> base w' = base w \<and> offset w' = length (content fl') \<and>
         (\<exists>k. content fl' = content fl @ take k (concat ss)) \<and>
         (e = None \<longrightarrow> content fl' = content fl @ concat ss)"
  using assms
proof (induction ss arbitrary: fl w)
  case Nil
  then show ?case by auto
next
  case (Cons s ss)
  obtain e1 fl1 w1 where w1: "Write (fl, w) s = (e1, fl1, w1)"
    by (cases "Write (fl, w) s") auto
  note a = Write_append[OF Cons.prems(1) w1]
  show ?case
  proof (cases e1)
    case (Some x)
    then have eq: "e = Some x" "fl' = fl1" "w' = w1"
      using Cons.prems(2) w1 by simp_all
    obtain k where k: "content fl1 = content fl @ take k s"
      using a by blast
    have "take k s = take (min k (length s)) (concat (s # ss))"
      by (simp add: min_def)
    then have ex: "\<exists>k'. content fl' = content fl @ take k' (concat (s # ss))"
      using k eq by metis
    show ?thesis using a ex eq by simp
  next
    case None
    then have r: "write_each (fl1, w1) ss = (e, fl', w')"
      using Cons.prems(2) w1 by simp
    have c1: "content fl1 = content fl @ s" using a None by simp
    have o1: "offset w1 = length (content fl1)" using a by simp
    note ih = Cons.IH[OF o1 r]
    obtain k where k: "content fl' = content fl1 @ take k (concat ss)"
      using ih by blast
    have "content fl' = content fl @ take (length s + k) (concat (s # ss))"
      using k c1 by simp
    then have ex: "\<exists>k'. content fl' = content fl @ take k' (concat (s # ss))"
      by blast
    have full: "e = None \<longrightarrow> content fl' = content fl @ concat (s # ss)"
      using ih c1 by simp
    have rest: "closed fl' = closed fl \<and> base w' = base w \<and> offset w' = length (content fl')"
      using ih a by simp
    show ?thesis using ex full rest by blast
  qed
qed

lemma LdWrite_append:
  assumes "offset w = length (content fl)" and "LdWrite (fl, w) ss = (e, fl', w')"
  shows "closed fl' = closed fl \<and> base w' = base w \<and> offset w' = length (content fl') \<and>
         (\<exists>k. content fl' = content fl @
            take k (enc (IVarint (sum_list (map length ss))) @ concat ss)) \<and>
         (e = None \<longrightarrow> \<not> closed fl \<and> content fl' = content fl @
            enc (IVarint (sum_list (map length ss))) @ concat ss)"
proof -
  let ?v = "enc (IVarint (sum_list (map length ss)))"
  have "write_each (fl, w) (?v # ss) = (e, fl', w')"
    using assms(2) by (simp add: LdWrite_def)
  from write_each_append[OF assms(1) this]
  have main: "closed fl' = closed fl \<and> base w' = base w \<and> offset w' = length (content fl') \<and>
         (\<exists>k. content fl' = content fl @ take k (?v @ concat ss)) \<and>
         (e = None \<longrightarrow> content fl' = content fl @ ?v @ concat ss)"
    by simp
  have "\<not> closed fl" if "e = None"
  proof
    assume "closed fl"
    then have "Write (fl, w) ?v = (Some (Err ErrClosed), fl, w)"
      by (simp add: Write_def WriteAt_def)
    then show False using assms(2) that by (simp add: LdWrite_def)
  qed
  then show ?thesis using main by blast
qed


lemma take_eq_append:
  assumes "take (length e) xs = e"
  shows "\<exists>rest. xs = e @ rest"
  by (metis assms append_take_drop_id)

lemma sec_len_pos: "0 < sec_len s"
  by (simp add: sec_len_def varint_len_pos)

lemma entry_ok_split:
  assumes "entry_ok fl D (c, off) s"
  shows "fst s = c \<and> (\<exists>rest. drop (D + off) (content fl) = enc_section s @ rest)"
  using assms take_eq_append[of "enc_section s" "drop (D + off) (content fl)"]
  by (auto simp: entry_ok_def length_enc_section)

lemma entry_reads:
  assumes "\<not> closed fl" and "entry_ok fl D (c, off) (c', d)"
  shows "read_at fl (D + off) ReadNode = Inr (c, d)"
    and "read_at fl (D + off) dec_varint =
           Inr (cid_len c + length d, varint_len (cid_len c + length d))"
    and "read_at fl (D + off + varint_len (cid_len c + length d)) dec_cid = Inr (cid_len c, c)"
proof -
  let ?L = "cid_len c + length d"
  obtain rest where c: "c' = c" and r: "drop (D + off) (content fl) = enc_section (c, d) @ rest"
    using entry_ok_split[OF assms(2)] by auto
  show "read_at fl (D + off) ReadNode = Inr (c, d)"
    using assms(1) by (simp add: read_at_def r ReadNode_enc_section)
  show "read_at fl (D + off) dec_varint = Inr (?L, varint_len ?L)"
    using assms(1) by (simp add: read_at_def r enc_section_def dec_varint_enc)
  have "drop (D + off + varint_len ?L) (content fl) = drop (varint_len ?L) (drop (D + off) (content fl))"
    by (simp add: add.commute)
  also have "\<dots> = enc (ICid c) @ enc_raw d @ rest"
    by (simp add: r enc_section_def length_enc[of "IVarint ?L", simplified, symmetric])
  finally show "read_at fl (D + off + varint_len ?L) dec_cid = Inr (cid_len c, c)"
    using assms(1) by (simp add: read_at_def dec_cid_enc)
qed

lemma entry_ok_append:
  assumes "entry_ok fl D r s" and "content fl' = content fl @ xs"
  shows "entry_ok fl' D r s"
proof -
  let ?p = "D + snd r"
  have t: "take (sec_len s) (drop ?p (content fl)) = enc_section s"
    using assms(1) by (simp add: entry_ok_def)
  then have "length (take (sec_len s) (drop ?p (content fl))) = sec_len s"
    by (simp add: length_enc_section)
  then have le: "sec_len s \<le> length (content fl) - ?p"
    by simp
  have "take (sec_len s) (drop ?p (content fl @ xs)) = take (sec_len s) (drop ?p (content fl))"
    using le by simp
  then show ?thesis using assms by (simp add: entry_ok_def)
qed

lemma entries_ok_append:
  assumes "list_all2 (entry_ok fl D) ix log" and "content fl' = content fl @ xs"
  shows "list_all2 (entry_ok fl' D) ix log"
  using assms(1) by (rule list_all2_mono) (rule entry_ok_append[OF _ assms(2)])

lemma visit_Get_entries:
  assumes "\<not> closed (backing ro)" and "list_all2 (entry_ok (backing ro) (origin ro)) ix log"
  shows "visit (Get_visitor ro k) (map snd (filter (\<lambda>r. Hash (fst r) = Hash k) ix)) (None, None) =
         (map_option snd (find (\<lambda>s. same_key (ro_opts ro) (fst s) k) log), None)"
  using assms(2)
proof (induction rule: list_all2_induct)
  case Nil
  then show ?case by simp
next
  case (Cons r ix s log)
  obtain c off where r: "r = (c, off)" by (cases r)
  obtain c' d where s: "s = (c', d)" by (cases s)
  have cc: "c' = c" using Cons.hyps(1) by (simp add: entry_ok_def r s)
  show ?case
  proof (cases "Hash c = Hash k")
    case False
    then show ?thesis using Cons.IH by (auto simp: r s cc same_key_def)
  next
    case True
    have e: "entry_ok (backing ro) (origin ro) (c, off) (c', d)"
      using Cons.hyps(1) by (simp add: r s)
    have rb: "readBlock ro off = Inr (c, d)"
      using entry_reads(1)[OF assms(1) e] by (simp add: readBlock_def)
    show ?thesis using Cons.IH True
      by (simp add: r s cc same_key_def Get_visitor_def rb)
  qed
qed

lemma visit_Has_entries:
  assumes "\<not> closed (backing ro)" and "list_all2 (entry_ok (backing ro) (origin ro)) ix log"
  shows "visit (Has_visitor ro k) (map snd (filter (\<lambda>r. Hash (fst r) = Hash k) ix)) (False, None) =
         (find (\<lambda>s. same_key (ro_opts ro) (fst s) k) log \<noteq> None, None)"
  using assms(2)
proof (induction rule: list_all2_induct)
  case Nil
  then show ?case by simp
next
  case (Cons r ix s log)
  obtain c off where r: "r = (c, off)" by (cases r)
  obtain c' d where s: "s = (c', d)" by (cases s)
  have cc: "c' = c" using Cons.hyps(1) by (simp add: entry_ok_def r s)
  show ?case
  proof (cases "Hash c = Hash k")
    case False
    then show ?thesis using Cons.IH by (auto simp: r s cc same_key_def)
  next
    case True
    have e: "entry_ok (backing ro) (origin ro) (c, off) (c', d)"
      using Cons.hyps(1) by (simp add: r s)
    note rd = entry_reads(2,3)[OF assms(1) e]
    show ?thesis using Cons.IH True
      by (simp add: r s cc same_key_def Has_visitor_def rd)
  qed
qed


lemma stored_Get:
  assumes "stored b log"
  shows "Get b k =
     (case find (\<lambda>s. same_key (ropts b) (fst s) k) log of
        None \<Rightarrow> Inl (Err ErrNotFound)
      | Some s \<Rightarrow> Inr (Block k (snd s)))"
proof -
  let ?ro = "ReadOnly_of b"
  have nc: "\<not> closed (backing ?ro)" and nf: "\<not> finalized b"
    and es: "list_all2 (entry_ok (backing ?ro) (origin ?ro)) (idx b) log"
    using assms by (simp_all add: stored_def ReadOnly_of_def finalized_def)
  have v: "visit (Get_visitor ?ro k) (ii_GetAll (idx b) k) (None, None) =
      (map_option snd (find (\<lambda>s. same_key (ropts b) (fst s) k) log), None)"
    using visit_Get_entries[OF nc es, of k] by (simp add: ii_GetAll_def ReadOnly_of_def)
  have ix: "ro_idx ?ro k = ii_GetAll (idx b) k"
    by (simp add: ReadOnly_of_def)
  show ?thesis
  proof (cases "ii_GetAll (idx b) k = []")
    case True
    then have "find (\<lambda>s. same_key (ropts b) (fst s) k) log = None"
      using v by simp
    then show ?thesis using True nf
      by (simp add: Get_def ReadOnly_Get_def GetAll_def ix)
  next
    case False
    then show ?thesis using nf v
      by (simp add: Get_def ReadOnly_Get_def GetAll_def ix del: visit.simps split: option.splits)
  qed
qed

lemma stored_Has:
  assumes "stored b log"
  shows "Has b k = Inr (find (\<lambda>s. same_key (ropts b) (fst s) k) log \<noteq> None)"
proof -
  let ?ro = "ReadOnly_of b"
  have nc: "\<not> closed (backing ?ro)" and nf: "\<not> finalized b"
    and es: "list_all2 (entry_ok (backing ?ro) (origin ?ro)) (idx b) log"
    using assms by (simp_all add: stored_def ReadOnly_of_def finalized_def)
  have v: "visit (Has_visitor ?ro k) (ii_GetAll (idx b) k) (False, None) =
      (find (\<lambda>s. same_key (ropts b) (fst s) k) log \<noteq> None, None)"
    using visit_Has_entries[OF nc es, of k] by (simp add: ii_GetAll_def ReadOnly_of_def)
  have ix: "ro_idx ?ro k = ii_GetAll (idx b) k"
    by (simp add: ReadOnly_of_def)
  show ?thesis
  proof (cases "ii_GetAll (idx b) k = []")
    case True
    then have "find (\<lambda>s. same_key (ropts b) (fst s) k) log = None"
      using v by (cases "find (\<lambda>s. same_key (ropts b) (fst s) k) log") auto
    then show ?thesis using True nf
      by (simp add: Has_def ReadOnly_Has_def GetAll_def ix)
  next
    case False
    then show ?thesis using nf v
      by (simp add: Has_def ReadOnly_Has_def GetAll_def ix del: visit.simps)
  qed
qed

lemma entries_keys: "list_all2 (entry_ok fl D) ix log \<Longrightarrow> map fst ix = map fst log"
  by (induction rule: list_all2_induct) (auto simp: entry_ok_def)

lemma find_same_key:
  "(find (\<lambda>s. same_key ro (fst s) c) log \<noteq> None) = (\<exists>k\<in>set (map fst log). same_key ro k c)"
  by (force simp: find_None_iff)

lemma dedup_cond:
  assumes "map fst ix = map fst log"
  shows "((BlockstoreUseWholeCIDs ro \<and> hasExactCID ix c) \<or>
          (\<not> BlockstoreUseWholeCIDs ro \<and> \<not> isl (ii_Get ix c))) =
         (find (\<lambda>s. same_key ro (fst s) c) log \<noteq> None)"
proof -
  have "(\<not> isl (ii_Get ix c)) = (filter (\<lambda>r. Hash (fst r) = Hash c) ix \<noteq> [])"
    by (cases "filter (\<lambda>r. Hash (fst r) = Hash c) ix") (simp_all add: ii_Get_def ii_GetAll_def)
  then have g: "(\<not> isl (ii_Get ix c)) = (\<exists>k\<in>set (map fst ix). Hash k = Hash c)"
    by (simp add: filter_empty_conv)
  have h: "hasExactCID ix c = (\<exists>k\<in>set (map fst ix). k = c)"
    by (auto simp: hasExactCID_def)
  show ?thesis
    unfolding find_same_key g h assms[symmetric] by (auto simp: same_key_def)
qed


lemma PutMany_loop_Cons:
  "PutMany_loop b (bl # blks) =
     (if dedup_skips b (BlockCid bl) then PutMany_loop b blks
      else case LdWrite (rw_f b, dataWriter b) [enc (ICid (BlockCid bl)), enc_raw (RawData bl)] of
             (Some e, fl, w) \<Rightarrow> (Some e, b\<lparr>rw_f := fl, dataWriter := w\<rparr>)
           | (None, fl, w) \<Rightarrow>
               PutMany_loop (b\<lparr>rw_f := fl, dataWriter := w,
                   idx := insertNoReplace (idx b) (BlockCid bl) (Position (dataWriter b))\<rparr>) blks)"
  by (auto simp: dedup_skips_def Let_def)

declare PutMany_loop.simps(2) [simp del]

lemma stored_dedup:
  assumes "stored b log"
  shows "dedup_skips b c =
     (\<not> BlockstoreAllowDuplicatePuts (wopts b) \<and>
      find (\<lambda>s. same_key (ropts b) (fst s) c) log \<noteq> None)"
proof -
  have "map fst (idx b) = map fst log"
    using assms entries_keys by (auto simp: stored_def)
  from dedup_cond[OF this, of "ropts b" c] show ?thesis
    by (simp add: dedup_skips_def)
qed

lemma stored_write:
  assumes "stored b log"
    and "LdWrite (rw_f b, dataWriter b) [enc (ICid c), enc_raw d] = (e1, fl, w)"
  shows "stored (b\<lparr>rw_f := fl, dataWriter := w\<rparr>) log"
    and "e1 = None \<Longrightarrow> content fl = content (rw_f b) @ enc_section (c, d)"
    and "e1 = None \<Longrightarrow>
      stored (b\<lparr>rw_f := fl, dataWriter := w,
                idx := insertNoReplace (idx b) c (Position (dataWriter b))\<rparr>) (log @ [(c, d)])"
proof -
  let ?D = "DataOffset (header b)"
  have o: "offset (dataWriter b) = length (content (rw_f b))"
    using assms(1) by (simp add: stored_def)
  note a = LdWrite_append[OF o assms(2)]
  obtain k where k: "content fl = content (rw_f b) @ take k
      (enc (IVarint (sum_list (map length [enc (ICid c), enc_raw d]))) @
       concat [enc (ICid c), enc_raw d])"
    using a by blast
  have es: "list_all2 (entry_ok fl ?D) (idx b) log"
    using assms(1) entries_ok_append[OF _ k] by (simp add: stored_def)
  have len: "PragmaSize + HeaderSize \<le> length (content (rw_f b))"
    using assms(1) by (simp add: stored_def)
  have hd: "take (PragmaSize + HeaderSize) (content fl) =
      take (PragmaSize + HeaderSize) (content (rw_f b))"
    using len by (simp add: k)
  show st: "stored (b\<lparr>rw_f := fl, dataWriter := w\<rparr>) log"
    using assms(1) a es hd by (auto simp: stored_def k)
  assume n: "e1 = None"
  show c: "content fl = content (rw_f b) @ enc_section (c, d)"
    using a n by (simp add: enc_section_def length_enc enc_raw_def)
  have p: "?D + Position (dataWriter b) = length (content (rw_f b))"
    using assms(1) by (simp add: stored_def Position_def)
  have new: "entry_ok fl ?D (c, Position (dataWriter b)) (c, d)"
    by (simp add: entry_ok_def p c length_enc_section[symmetric])
  have "list_all2 (entry_ok fl ?D) (idx b @ [(c, Position (dataWriter b))]) (log @ [(c, d)])"
    using es new by (simp add: list_all2_appendI)
  then show "stored (b\<lparr>rw_f := fl, dataWriter := w,
                idx := insertNoReplace (idx b) c (Position (dataWriter b))\<rparr>) (log @ [(c, d)])"
    using st by (simp add: stored_def insertNoReplace_def)
qed

lemma PutMany_loop_stored:
  assumes "stored b log" and "PutMany_loop b blks = (e, b')"
  shows "\<exists>n\<le>length blks. stored b' (put_log (ropts b) (wopts b) log (take n blks)) \<and>
           (e = None \<longrightarrow> n = length blks) \<and>
           header b' = header b \<and> ropts b' = ropts b \<and> wopts b' = wopts b"
  using assms
proof (induction blks arbitrary: b log)
  case Nil
  then show ?case by simp
next
  case (Cons bl blks)
  let ?c = "BlockCid bl" and ?d = "RawData bl"
  show ?case
  proof (cases "dedup_skips b ?c")
    case True
    then have r: "PutMany_loop b blks = (e, b')"
      using Cons.prems(2) by (simp add: PutMany_loop_Cons)
    obtain n where n: "n \<le> length blks"
      "stored b' (put_log (ropts b) (wopts b) log (take n blks))"
      "e = None \<longrightarrow> n = length blks" "header b' = header b" "ropts b' = ropts b"
      "wopts b' = wopts b"
      using Cons.IH[OF Cons.prems(1) r] by blast
    have cond: "(\<not> BlockstoreAllowDuplicatePuts (wopts b) \<and>
        find (\<lambda>s. same_key (ropts b) (fst s) ?c) log \<noteq> None) = True"
      using True stored_dedup[OF Cons.prems(1), of ?c] by blast
    have "put_log (ropts b) (wopts b) log (take (Suc n) (bl # blks)) =
        put_log (ropts b) (wopts b) log (take n blks)"
      by (simp only: take_Suc_Cons put_log.simps cond if_True)
    then show ?thesis using n by (intro exI[of _ "Suc n"]) simp
  next
    case False
    obtain e1 fl w where lw: "LdWrite (rw_f b, dataWriter b) [enc (ICid ?c), enc_raw ?d] = (e1, fl, w)"
      by (cases "LdWrite (rw_f b, dataWriter b) [enc (ICid ?c), enc_raw ?d]") auto
    note sw = stored_write[OF Cons.prems(1) lw]
    show ?thesis
    proof (cases e1)
      case (Some x)
      then have "e = Some x" "b' = b\<lparr>rw_f := fl, dataWriter := w\<rparr>"
        using Cons.prems(2) False lw by (simp_all add: PutMany_loop_Cons)
      then show ?thesis using sw(1) by (intro exI[of _ 0]) simp
    next
      case None
      let ?b1 = "b\<lparr>rw_f := fl, dataWriter := w,
          idx := insertNoReplace (idx b) ?c (Position (dataWriter b))\<rparr>"
      have r: "PutMany_loop ?b1 blks = (e, b')"
        using Cons.prems(2) False lw None by (simp add: PutMany_loop_Cons)
      obtain n where n: "n \<le> length blks"
        "stored b' (put_log (ropts ?b1) (wopts ?b1) (log @ [(?c, ?d)]) (take n blks))"
        "e = None \<longrightarrow> n = length blks" "header b' = header ?b1" "ropts b' = ropts ?b1"
        "wopts b' = wopts ?b1"
        using Cons.IH[OF sw(3)[OF None] r] by blast
      have cond: "(\<not> BlockstoreAllowDuplicatePuts (wopts b) \<and>
          find (\<lambda>s. same_key (ropts b) (fst s) ?c) log \<noteq> None) = False"
        using False stored_dedup[OF Cons.prems(1), of ?c] by blast
      have "put_log (ropts b) (wopts b) log (take (Suc n) (bl # blks)) =
          put_log (ropts b) (wopts b) (log @ [(?c, ?d)]) (take n blks)"
        by (simp only: take_Suc_Cons put_log.simps cond if_False)
      then show ?thesis using n by (intro exI[of _ "Suc n"]) simp
    qed
  qed
qed


lemma WriteAt_ok:
  assumes "WriteAt fl bs off = ((n, None), fl')" and "bs \<noteq> []"
  shows "\<not> closed fl \<and> closed fl' = closed fl \<and> n = length bs \<and>
         content fl' = write_bytes (content fl) off bs"
  using assms by (auto simp: WriteAt_def split: if_splits option.splits)

lemma Write_ok:
  assumes "Write (fl, w) bs = (None, fl', w')" and "bs \<noteq> []"
  shows "\<not> closed fl \<and> closed fl' = closed fl \<and> base w' = base w \<and>
         offset w' = offset w + length bs \<and>
         content fl' = write_bytes (content fl) (offset w) bs"
proof -
  obtain n where "WriteAt fl bs (offset w) = ((n, None), fl')" and "w' = w\<lparr>offset := offset w + n\<rparr>"
    using assms(1) by (auto simp: Write_def split: prod.splits)
  then show ?thesis using WriteAt_ok[OF _ assms(2)] by auto
qed

lemma write_bytes_pad:
  "length c \<le> off \<Longrightarrow> write_bytes c off bs = c @ replicate (off - length c) (Raw 0) @ bs"
  by (simp add: write_bytes_def)

lemma initWithRoots_ok:
  assumes "content (rw_f b0) = []" and "PragmaSize \<le> offset (dataWriter b0)"
    and "initWithRoots b0 roots = (None, b)"
  shows "content (rw_f b) =
           enc IPragma @ replicate (offset (dataWriter b0) - PragmaSize) (Raw 0) @ enc_carheader roots"
    and "\<not> closed (rw_f b)"
    and "dataWriter b = (dataWriter b0)\<lparr>offset := length (content (rw_f b))\<rparr>"
    and "idx b = idx b0" and "header b = header b0" and "ropts b = ropts b0"
    and "wopts b = wopts b0"
proof -
  let ?D = "offset (dataWriter b0)"
  let ?v = "enc (IVarint (car_header_len roots 1))"
  obtain n fl1 where w1: "WriteAt (rw_f b0) (enc IPragma) 0 = ((n, None), fl1)"
    and r1: "WriteHeader (CarHeader roots 1) (fl1, dataWriter b0) =
        (None, rw_f b, dataWriter b)"
    and rest: "idx b = idx b0 \<and> header b = header b0 \<and> ropts b = ropts b0 \<and> wopts b = wopts b0"
    using assms(3)
    by (auto simp: initWithRoots_def split: prod.splits option.splits)
  have c1: "content fl1 = enc IPragma" and nc1: "\<not> closed fl1"
    using WriteAt_ok[OF w1 enc_nonempty] assms(1) by (simp_all add: write_bytes_def)
  obtain fl2 w2 where w2: "Write (fl1, dataWriter b0) ?v = (None, fl2, w2)"
    and r2: "write_each (fl2, w2) [enc (ICarHeader roots 1)] = (None, rw_f b, dataWriter b)"
    using r1
    by (auto simp: WriteHeader_def LdWrite_def length_enc split: prod.splits option.splits)
  note k2 = Write_ok[OF w2 enc_nonempty]
  have l1: "length (content fl1) \<le> ?D"
    using assms(2) by (simp add: c1 length_enc)
  have c2: "content fl2 = enc IPragma @ replicate (?D - PragmaSize) (Raw 0) @ ?v"
    using k2 write_bytes_pad[OF l1] by (simp add: c1 length_enc)
  have "length (content fl2) = ?D + length ?v"
    using assms(2) by (simp add: c2 length_enc)
  then have o2: "offset w2 = length (content fl2)"
    using k2 by simp
  note k3 = write_each_append[OF o2 r2]
  show "content (rw_f b) = enc IPragma @ replicate (?D - PragmaSize) (Raw 0) @ enc_carheader roots"
    using k3 by (simp add: c2 enc_carheader_def)
  show "\<not> closed (rw_f b)" using k3 k2 by simp
  show "dataWriter b = (dataWriter b0)\<lparr>offset := length (content (rw_f b))\<rparr>"
    using k3 k2 by simp
  show "idx b = idx b0" "header b = header b0" "ropts b = ropts b0" "wopts b = wopts b0"
    using rest by simp_all
qed

lemma configured_header_eq:
  "(let h0 = NewHeader 0;
        h1 = (if DataPadding wo > 0 then WithDataPadding h0 (DataPadding wo) else h0);
        h2 = (if IndexPadding wo > 0 then WithIndexPadding h1 (IndexPadding wo) else h1)
    in h2) = configured_header wo"
  by (simp add: Let_def NewHeader_def WithDataPadding_def WithIndexPadding_def
      configured_header_def)

lemma OpenReadWrite_eq:
  "OpenReadWrite fl roots ro wo =
     (let rwbs = \<lparr>rw_f = fl, dataWriter = NewOffsetWriter (DataOffset (configured_header wo)),
                  idx = newInsertionIndex, header = configured_header wo, ropts = ro, wopts = wo\<rparr>
      in case (if length (content fl) \<noteq> 0 then resumeWithRoots rwbs roots
               else initWithRoots rwbs roots) of
           (Some e, b) \<Rightarrow> Inl (e, Close (rw_f b))
         | (None, b) \<Rightarrow> Inr b)"
  unfolding OpenReadWrite_def using configured_header_eq[of wo]
  by (simp add: Let_def)

lemma length_enc_carheader: "length (enc_carheader roots) = carv1_HeaderSize (CarHeader roots 1)"
  by (simp add: enc_carheader_def carv1_HeaderSize_def length_enc)

lemma carv1_HeaderSize_pos: "0 < carv1_HeaderSize h"
  by (simp add: carv1_HeaderSize_def varint_len_pos)

lemma open_fresh_lay:
  assumes "content fl = []" and "OpenReadWrite fl roots ro wo = Inr b"
  shows "lay b roots []" and "ropts b = ro" and "wopts b = wo"
proof -
  let ?h = "configured_header wo"
  let ?b0 = "\<lparr>rw_f = fl, dataWriter = NewOffsetWriter (DataOffset ?h),
                  idx = newInsertionIndex, header = ?h, ropts = ro, wopts = wo\<rparr>"
  have i: "initWithRoots ?b0 roots = (None, b)"
    using assms by (auto simp: OpenReadWrite_eq Let_def split: prod.splits option.splits)
  have p: "PragmaSize \<le> offset (dataWriter ?b0)"
    by (simp add: NewOffsetWriter_def configured_header_def)
  have c0: "content (rw_f ?b0) = []" using assms(1) by simp
  note k = initWithRoots_ok[OF c0 p i]
  let ?D = "DataOffset ?h"
  have D: "?D = PragmaSize + HeaderSize + DataPadding wo"
    by (simp add: configured_header_def)
  have c: "content (rw_f b) = enc IPragma @ replicate (?D - PragmaSize) (Raw 0) @ enc_carheader roots"
    using k(1) by (simp add: NewOffsetWriter_def)
  have len: "length (content (rw_f b)) = ?D + carv1_HeaderSize (CarHeader roots 1)"
    by (simp add: c length_enc length_enc_carheader D)
  have hd: "take (PragmaSize + HeaderSize) (content (rw_f b)) =
      enc IPragma @ replicate HeaderSize (Raw 0)"
    by (simp add: c length_enc D min_def)
  have st: "stored b []"
    using k(2-6) len hd carv1_HeaderSize_pos[of "CarHeader roots 1"]
    by (simp add: stored_def newInsertionIndex_def NewOffsetWriter_def configured_header_def)
  show "lay b roots []"
    using st k c by (simp add: lay_def idx_of_def newInsertionIndex_def)
  show "ropts b = ro" "wopts b = wo" using k by simp_all
qed

lemma sec_offsets_append:
  "sec_offsets p (log @ [s]) = sec_offsets p log @ [p + sum_list (map sec_len log)]"
  by (induction log arbitrary: p) (simp_all add: add.assoc)

lemma length_sec_offsets: "length (sec_offsets p log) = length log"
  by (induction log arbitrary: p) simp_all

lemma idx_of_append:
  "idx_of p (log @ [s]) = idx_of p log @ [(fst s, p + sum_list (map sec_len log))]"
  by (simp add: idx_of_def sec_offsets_append length_sec_offsets)

lemma length_concat_sections:
  "length (concat (map enc_section log)) = sum_list (map sec_len log)"
  by (induction log) (simp_all add: length_enc_section)

lemma lay_Position:
  assumes "lay b roots log"
  shows "Position (dataWriter b) =
     carv1_HeaderSize (CarHeader roots 1) + sum_list (map sec_len log)"
proof -
  let ?D = "DataOffset (header b)"
  have st: "stored b log" and c: "content (rw_f b) =
        enc IPragma @ replicate (?D - PragmaSize) (Raw 0) @
        enc_carheader roots @ concat (map enc_section log)"
    using assms by (simp_all add: lay_def)
  have "PragmaSize \<le> ?D" using st by (simp add: stored_def)
  then have "length (content (rw_f b)) =
      ?D + carv1_HeaderSize (CarHeader roots 1) + sum_list (map sec_len log)"
    by (simp add: c length_enc length_enc_carheader length_concat_sections)
  then show ?thesis using st by (simp add: stored_def Position_def)
qed

lemma lay_write:
  assumes "lay b roots log"
    and "LdWrite (rw_f b, dataWriter b) [enc (ICid c), enc_raw d] = (None, fl, w)"
  shows "lay (b\<lparr>rw_f := fl, dataWriter := w,
                idx := insertNoReplace (idx b) c (Position (dataWriter b))\<rparr>) roots (log @ [(c, d)])"
proof -
  have st: "stored b log" using assms(1) by (simp add: lay_def)
  note sw = stored_write[OF st assms(2)]
  show ?thesis
    using assms(1) sw(2)[OF refl] sw(3)[OF refl] lay_Position[OF assms(1)]
    by (simp add: lay_def insertNoReplace_def idx_of_append)
qed

lemma PutMany_loop_lay:
  assumes "lay b roots log" and "PutMany_loop b blks = (None, b')"
  shows "lay b' roots (put_log (ropts b) (wopts b) log blks) \<and> ropts b' = ropts b \<and>
         wopts b' = wopts b"
  using assms
proof (induction blks arbitrary: b log)
  case Nil
  then show ?case by simp
next
  case (Cons bl blks)
  let ?c = "BlockCid bl" and ?d = "RawData bl"
  have st: "stored b log" using Cons.prems(1) by (simp add: lay_def)
  show ?case
  proof (cases "dedup_skips b ?c")
    case True
    then have r: "PutMany_loop b blks = (None, b')"
      using Cons.prems(2) by (simp add: PutMany_loop_Cons)
    have cond: "(\<not> BlockstoreAllowDuplicatePuts (wopts b) \<and>
        find (\<lambda>s. same_key (ropts b) (fst s) ?c) log \<noteq> None) = True"
      using True stored_dedup[OF st, of ?c] by blast
    have "put_log (ropts b) (wopts b) log (bl # blks) = put_log (ropts b) (wopts b) log blks"
      by (simp only: put_log.simps cond if_True)
    then show ?thesis using Cons.IH[OF Cons.prems(1) r] by simp
  next
    case False
    obtain e1 fl w where lw: "LdWrite (rw_f b, dataWriter b) [enc (ICid ?c), enc_raw ?d] = (e1, fl, w)"
      by (cases "LdWrite (rw_f b, dataWriter b) [enc (ICid ?c), enc_raw ?d]") auto
    have e1: "e1 = None"
      using Cons.prems(2) False lw by (cases e1) (simp_all add: PutMany_loop_Cons)
    let ?b1 = "b\<lparr>rw_f := fl, dataWriter := w,
        idx := insertNoReplace (idx b) ?c (Position (dataWriter b))\<rparr>"
    have r: "PutMany_loop ?b1 blks = (None, b')"
      using Cons.prems(2) False lw e1 by (simp add: PutMany_loop_Cons)
    have l1: "lay ?b1 roots (log @ [(?c, ?d)])"
      using lay_write[OF Cons.prems(1)] lw e1 by simp
    have cond: "(\<not> BlockstoreAllowDuplicatePuts (wopts b) \<and>
        find (\<lambda>s. same_key (ropts b) (fst s) ?c) log \<noteq> None) = False"
      using False stored_dedup[OF st, of ?c] by blast
    have "put_log (ropts b) (wopts b) log (bl # blks) =
        put_log (ropts b) (wopts b) (log @ [(?c, ?d)]) blks"
      by (simp only: put_log.simps cond if_False)
    then show ?thesis using Cons.IH[OF l1 r] by simp
  qed
qed


lemma resume_loop_scan:
  assumes "\<not> closed (rw_f b)"
    and "content (rw_f b) = pre @ concat (map enc_section log)"
    and "length pre = DataOffset (header b) + p"
  shows "resume_loop b p = Inr (b\<lparr>idx := idx b @ idx_of p log\<rparr>, p + sum_list (map sec_len log))"
  using assms
proof (induction log arbitrary: b pre p)
  case Nil
  then have "read_at (rw_f b) (DataOffset (header b) + p) dec_varint = Inl (Err ErrEOF)"
    by (simp add: read_at_def dec_varint_def)
  then show ?case
    by (subst resume_loop.simps) (simp add: idx_of_def)
next
  case (Cons s log)
  obtain c d where s: "s = (c, d)" by (cases s)
  let ?D = "DataOffset (header b)"
  let ?L = "cid_len c + length d"
  have dr: "drop (?D + p) (content (rw_f b)) = enc_section (c, d) @ concat (map enc_section log)"
    using Cons.prems(2,3) by (simp add: s)
  have e: "entry_ok (rw_f b) ?D (c, p) (c, d)"
    by (simp add: entry_ok_def dr length_enc_section[symmetric])
  note rd = entry_reads(2,3)[OF Cons.prems(1) e]
  let ?b1 = "b\<lparr>idx := insertNoReplace (idx b) c p\<rparr>"
  have L: "cid_len c \<noteq> 0" by (simp add: cid_len_def)
  have step: "resume_loop b p = resume_loop ?b1 (p + varint_len ?L + cid_len c + ?L - cid_len c)"
    by (subst resume_loop.simps) (simp add: rd L)
  have p': "p + varint_len ?L + cid_len c + ?L - cid_len c = p + sec_len s"
    by (simp add: sec_len_def s)
  have c1: "content (rw_f ?b1) = (pre @ enc_section s) @ concat (map enc_section log)"
    using Cons.prems(2) by simp
  have l1: "length (pre @ enc_section s) = DataOffset (header ?b1) + (p + sec_len s)"
    using Cons.prems(3) by (simp add: length_enc_section)
  have n1: "\<not> closed (rw_f ?b1)" using Cons.prems(1) by simp
  have "resume_loop ?b1 (p + sec_len s) =
      Inr (?b1\<lparr>idx := idx ?b1 @ idx_of (p + sec_len s) log\<rparr>,
           p + sec_len s + sum_list (map sec_len log))"
    by (rule Cons.IH[OF n1 c1 l1])
  then show ?case
    unfolding step p' by (simp add: insertNoReplace_def idx_of_def s add.assoc)
qed

lemma ReadHeader_enc: "ReadHeader (enc_carheader roots @ rest) = Inr (CarHeader roots 1)"
proof -
  let ?n = "car_header_len roots 1"
  let ?it = "ICarHeader roots 1"
  have v: "dec_varint (enc_carheader roots @ rest) = Inr (?n, varint_len ?n)"
    by (simp add: enc_carheader_def dec_varint_enc)
  have dr: "drop (varint_len ?n) (enc_carheader roots @ rest) = enc ?it @ rest"
    by (simp add: enc_carheader_def length_enc[of "IVarint ?n", simplified, symmetric])
  have tk: "take ?n (enc ?it @ rest) = enc ?it"
    by (simp add: length_enc)
  have ld: "LdRead (enc_carheader roots @ rest) = Inr (enc ?it)"
    by (simp only: LdRead_def v dr tk sum.case prod.case) (simp add: length_enc)
  have ia: "item_at (enc ?it) = Inr ?it"
    using item_at_enc[of ?it "[]"] by simp
  show ?thesis
    by (simp add: ReadHeader_def ld ia length_enc del: One_nat_def)
qed

lemma stored_header_zero:
  assumes "stored b log"
  shows "read_at (rw_f b) PragmaSize Header_ReadFrom = Inr zero_header"
proof -
  let ?c = "content (rw_f b)"
  have t: "take (PragmaSize + HeaderSize) ?c = enc IPragma @ replicate HeaderSize (Raw 0)"
    and len: "PragmaSize + HeaderSize \<le> length ?c" and nc: "\<not> closed (rw_f b)"
    using assms by (simp_all add: stored_def)
  have "take HeaderSize (drop PragmaSize ?c) = drop PragmaSize (take (PragmaSize + HeaderSize) ?c)"
    by (simp add: drop_take)
  then have z: "take HeaderSize (drop PragmaSize ?c) = replicate HeaderSize (Raw 0)"
    by (simp add: t length_enc)
  have l: "HeaderSize \<le> length (drop PragmaSize ?c)" using len by simp
  then have ne: "drop PragmaSize ?c \<noteq> []" by (auto simp: HeaderSize_def)
  show ?thesis using nc l ne z by (simp add: read_at_def Header_ReadFrom_def)
qed

lemma stored_pragma:
  assumes "stored b log"
  shows "read_at (rw_f b) 0 ReadVersion = Inr 2"
proof -
  let ?c = "content (rw_f b)"
  have t: "take (PragmaSize + HeaderSize) ?c = enc IPragma @ replicate HeaderSize (Raw 0)"
    and nc: "\<not> closed (rw_f b)"
    using assms by (simp_all add: stored_def)
  have "?c = (enc IPragma @ replicate HeaderSize (Raw 0)) @ drop (PragmaSize + HeaderSize) ?c"
    using t by (metis append_take_drop_id)
  then obtain rest where "?c = enc IPragma @ rest" by (metis append.assoc)
  then have "item_at ?c = Inr IPragma" using item_at_enc[of IPragma rest] by simp
  then show ?thesis using nc by (simp add: read_at_def ReadVersion_def)
qed

lemma resume_lay:
  assumes "lay b roots log"
  shows "OpenReadWrite (rw_f b) roots (ropts b) (wopts b) = Inr b"
proof -
  let ?D = "DataOffset (header b)"
  let ?hs = "carv1_HeaderSize (CarHeader roots 1)"
  let ?b0 = "\<lparr>rw_f = rw_f b, dataWriter = NewOffsetWriter ?D,
                  idx = newInsertionIndex, header = header b, ropts = ropts b, wopts = wopts b\<rparr>"
  let ?pre = "enc IPragma @ replicate (?D - PragmaSize) (Raw 0) @ enc_carheader roots"
  have st: "stored b log" and h: "configured_header (wopts b) = header b"
    and c: "content (rw_f b) = ?pre @ concat (map enc_section log)"
    and ix: "idx b = idx_of ?hs log"
    using assms by (simp_all add: lay_def)
  have nc: "\<not> closed (rw_f b)" using st by (simp add: stored_def)
  have ne: "length (content (rw_f b)) \<noteq> 0"
    using st by (auto simp: stored_def)
  note v = stored_pragma[OF st]
  note z = stored_header_zero[OF st]
  have D: "PragmaSize \<le> ?D" using st by (simp add: stored_def)
  have lp: "length ?pre = ?D + ?hs"
    using D by (simp add: length_enc length_enc_carheader del: One_nat_def)
  have "drop ?D (content (rw_f b)) = enc_carheader roots @ concat (map enc_section log)"
    using D by (simp add: c length_enc)
  then have rh: "read_at (rw_f b) ?D ReadHeader = Inr (CarHeader roots 1)"
    using nc by (simp add: read_at_def ReadHeader_enc)
  have n0: "\<not> closed (rw_f ?b0)" using nc by simp
  have c0: "content (rw_f ?b0) = ?pre @ concat (map enc_section log)" using c by simp
  have l0: "length ?pre = DataOffset (header ?b0) + ?hs" using lp by simp
  have "resume_loop ?b0 ?hs =
      Inr (?b0\<lparr>idx := idx ?b0 @ idx_of ?hs log\<rparr>, ?hs + sum_list (map sec_len log))"
    by (rule resume_loop_scan[OF n0 c0 l0])
  then have rl: "resume_loop ?b0 ?hs =
      Inr (?b0\<lparr>idx := idx b\<rparr>, ?hs + sum_list (map sec_len log))"
    by (simp add: newInsertionIndex_def ix del: One_nat_def)
  have dw: "SeekStart (NewOffsetWriter ?D) (?hs + sum_list (map sec_len log)) = dataWriter b"
    using st lay_Position[OF assms]
    by (cases "dataWriter b") (auto simp: stored_def SeekStart_def NewOffsetWriter_def Position_def)
  have res: "resumeWithRoots ?b0 roots = (None, b)"
    by (simp add: resumeWithRoots_def v z zero_header_def rh Matches_def rl dw
        del: One_nat_def)
  show ?thesis
    using ne res by (simp add: OpenReadWrite_eq Let_def h)
qed

subsection \<open>The read-only store\<close>

text \<open>
  C8. A write attempt on the read-only store does not return the write-on-read-only error.
  \<open>DeleteBlock\<close> panics, as its comment says, for every store and every key: the call
  fails with the message of a write on a read-only store (\<open>Panic\<close> is the failure of a call
  that does not return, \<open>Err\<close> the one of a call that returns an error value), it returns
  no error value, and the store is as it was.
\<close>

theorem ReadOnly_DeleteBlock_panics:
  "fst (ReadOnly_DeleteBlock b k) = Some (Panic ErrWriteOnReadOnly) \<and>
   (\<forall>e. fst (ReadOnly_DeleteBlock b k) \<noteq> Some (Err e)) \<and>
   snd (ReadOnly_DeleteBlock b k) = b"
  by (simp add: ReadOnly_DeleteBlock_def)

text \<open>
  The three write methods on the store of the example: none returns the write-on-read-only
  error, each panics. \<open>Put\<close> and \<open>PutMany\<close> panic although their comments announce an
  error.
\<close>

theorem ReadOnly_writes_return_no_error:
  "fst (ReadOnly_DeleteBlock example_ro (Cid 85 [1])) \<noteq> Some (Err ErrWriteOnReadOnly) \<and>
   fst (ReadOnly_Put example_ro (Block (Cid 85 [1]) [7, 7])) \<noteq> Some (Err ErrWriteOnReadOnly) \<and>
   fst (ReadOnly_PutMany example_ro [Block (Cid 85 [1]) [7, 7]]) \<noteq> Some (Err ErrWriteOnReadOnly) \<and>
   fst (ReadOnly_DeleteBlock example_ro (Cid 85 [1])) = Some (Panic ErrWriteOnReadOnly) \<and>
   fst (ReadOnly_Put example_ro (Block (Cid 85 [1]) [7, 7])) = Some (Panic ErrWriteOnReadOnly) \<and>
   fst (ReadOnly_PutMany example_ro [Block (Cid 85 [1]) [7, 7]]) = Some (Panic ErrWriteOnReadOnly)"
  by (simp add: ReadOnly_DeleteBlock_def ReadOnly_Put_def ReadOnly_PutMany_def)

lemma Get_visitor_multihash_stops:
  "\<not> BlockstoreUseWholeCIDs (ro_opts b) \<Longrightarrow> fst (Get_visitor b key off s) = False"
  by (auto simp: Get_visitor_def split: sum.splits prod.splits)

lemma visit_stops_at_first:
  "fst (fn off s) = False \<Longrightarrow> visit fn (off # offs) s = snd (fn off s)"
  by (cases "fn off s") auto

text \<open>
  C9. With \<open>UseWholeCIDs\<close> off, when the first offset that the index presents for the key
  holds a section whose key has the multihash of the queried key, \<open>Get\<close> returns the block
  of the queried key (not of the key recorded in the section) with the stored payload; and
  the result is the one of the store whose index presents that first offset alone: no
  other candidate is examined.
\<close>

theorem Get_multihash_first_candidate:
  assumes "\<not> BlockstoreUseWholeCIDs (ro_opts b)" and "ro_idx b key = off # rest"
  shows "(readBlock b off = Inr (readCid, d) \<longrightarrow> Hash readCid = Hash key \<longrightarrow>
            ReadOnly_Get b key = Inr (Block key d)) \<and>
         ReadOnly_Get b key = ReadOnly_Get (b\<lparr>ro_idx := (\<lambda>k. [off])\<rparr>) key"
proof -
  have stop: "visit (Get_visitor b key) (off # offs) s = snd (Get_visitor b key off s)" for offs s
    using assms(1) by (intro visit_stops_at_first Get_visitor_multihash_stops)
  have same: "Get_visitor (b\<lparr>ro_idx := (\<lambda>k. [off])\<rparr>) key = Get_visitor b key"
    by (intro ext) (simp add: Get_visitor_def readBlock_def split: sum.splits)
  have one: "ReadOnly_Get b key = ReadOnly_Get (b\<lparr>ro_idx := (\<lambda>k. [off])\<rparr>) key"
    unfolding ReadOnly_Get_def GetAll_def same using assms(2) stop
    by (simp del: visit.simps)
  have hit: "ReadOnly_Get b key = Inr (Block key d)"
    if "readBlock b off = Inr (readCid, d)" and "Hash readCid = Hash key"
    unfolding ReadOnly_Get_def GetAll_def using assms that stop
    by (simp add: Get_visitor_def del: visit.simps)
  show ?thesis using one hit by blast
qed

theorem Get_multihash_first_candidate_witness:
  "\<not> BlockstoreUseWholeCIDs (ro_opts example_ro) \<and>
   ro_idx example_ro (Cid 112 [1]) = [0, 99] \<and>
   readBlock example_ro 0 = Inr (Cid 85 [1], [7, 7]) \<and>
   ReadOnly_Get example_ro (Cid 112 [1]) = Inr (Block (Cid 112 [1]) [7, 7]) \<and>
   ReadOnly_Get example_ro (Cid 112 [1]) =
     ReadOnly_Get (example_ro\<lparr>ro_idx := (\<lambda>k. [0])\<rparr>) (Cid 112 [1])"
proof -
  have o: "\<not> BlockstoreUseWholeCIDs (ro_opts example_ro)"
    by (simp add: example_ro_def example_opts_def)
  have i: "ro_idx example_ro (Cid 112 [1]) = 0 # [99]"
    by (simp add: example_ro_def)
  have r: "readBlock example_ro 0 = Inr (Cid 85 [1], [7, 7])"
    using ReadNode_enc_section[of "Cid 85 [1]" "[7, 7]" "[]"]
    by (simp add: readBlock_def read_at_def example_ro_def)
  show ?thesis
    using Get_multihash_first_candidate[OF o i, of "Cid 85 [1]" "[7, 7]"] o i r by auto
qed

subsection \<open>The read-write store\<close>

lemma lay_stored: "lay b roots log \<Longrightarrow> stored b log"
  by (simp add: lay_def)

lemma stored_not_finalized: "stored b log \<Longrightarrow> \<not> finalized b"
  by (simp add: stored_def finalized_def)

lemma reachable_stored: "reachable b \<Longrightarrow> \<exists>log. stored b log"
proof (induction rule: reachable.induct)
  case (fresh fl roots ro wo b)
  then show ?case using open_fresh_lay(1) lay_stored by blast
next
  case (put b blks e b')
  then obtain log where st: "stored b log" by blast
  then have "PutMany_loop b blks = (e, b')"
    using put.hyps(2) stored_not_finalized by (simp add: PutMany_def)
  from PutMany_loop_stored[OF st this] show ?case by blast
qed

lemma PutMany_loop_header:
  "PutMany_loop b blks = (e, b') \<Longrightarrow> header b' = header b"
proof (induction blks arbitrary: b)
  case Nil
  then show ?case by simp
next
  case (Cons bl blks)
  then show ?case
    by (auto simp: PutMany_loop_Cons split: if_splits prod.splits option.splits)
qed

lemma Puts_loop: "\<not> finalized b \<Longrightarrow> Puts b blks = PutMany_loop b blks"
proof (induction blks arbitrary: b)
  case Nil
  then show ?case by simp
next
  case (Cons bl blks)
  have one: "Put b bl = PutMany_loop b [bl]"
    using Cons.prems by (simp add: Put_def PutMany_def)
  obtain e1 b1 where r: "PutMany_loop b [bl] = (e1, b1)"
    by (cases "PutMany_loop b [bl]") auto
  have nf: "\<not> finalized b1"
    using PutMany_loop_header[OF r] Cons.prems by (simp add: finalized_def)
  show ?case
  proof (cases e1)
    case None
    then have "PutMany_loop b (bl # blks) = PutMany_loop b1 blks"
      using r by (auto simp: PutMany_loop_Cons split: if_splits prod.splits option.splits)
    then show ?thesis using one r None Cons.IH[OF nf] by simp
  next
    case (Some x)
    then have "PutMany_loop b (bl # blks) = (Some x, b1)"
      using r by (auto simp: PutMany_loop_Cons split: if_splits prod.splits option.splits)
    then show ?thesis using one r Some by simp
  qed
qed

lemma same_key_sym: "same_key ro a b = same_key ro b a"
  by (auto simp: same_key_def)

lemma same_key_trans: "same_key ro a b \<Longrightarrow> same_key ro b c \<Longrightarrow> same_key ro a c"
  by (auto simp: same_key_def split: if_splits)

lemma same_key_refl: "same_key ro a a"
  by (simp add: same_key_def)

lemma put_log_set:
  "set (put_log ro wo log blks) \<subseteq> set log \<union> (\<lambda>x. (BlockCid x, RawData x)) ` set blks"
proof (induction blks arbitrary: log)
  case Nil
  then show ?case by simp
next
  case (Cons bl blks)
  show ?case
    using Cons.IH[of log] Cons.IH[of "log @ [(BlockCid bl, RawData bl)]"]
    by (cases "\<not> BlockstoreAllowDuplicatePuts wo \<and>
        find (\<lambda>s. same_key ro (fst s) (BlockCid bl)) log \<noteq> None") auto
qed

lemma put_log_keeps:
  "s \<in> set log \<Longrightarrow> s \<in> set (put_log ro wo log blks)"
  by (induction blks arbitrary: log) auto

lemma put_log_covers:
  assumes "x \<in> set blks"
  shows "\<exists>s\<in>set (put_log ro wo log blks). same_key ro (fst s) (BlockCid x)"
  using assms
proof (induction blks arbitrary: log)
  case Nil
  then show ?case by simp
next
  case (Cons bl blks)
  show ?case
  proof (cases "x = bl")
    case False
    then show ?thesis using Cons by auto
  next
    case True
    show ?thesis
    proof (cases "\<not> BlockstoreAllowDuplicatePuts wo \<and>
        find (\<lambda>s. same_key ro (fst s) (BlockCid bl)) log \<noteq> None")
      case skip: True
      then obtain s where "s \<in> set log" "same_key ro (fst s) (BlockCid bl)"
        by (auto simp: find_None_iff)
      then show ?thesis using skip True put_log_keeps[of s log ro wo blks] by auto
    next
      case False
      have mem: "(BlockCid bl, RawData bl) \<in>
          set (put_log ro wo (log @ [(BlockCid bl, RawData bl)]) blks)"
        by (rule put_log_keeps) simp
      have eq: "put_log ro wo log (bl # blks) =
          put_log ro wo (log @ [(BlockCid bl, RawData bl)]) blks"
        using False by (simp only: put_log.simps if_False)
      show ?thesis
        unfolding eq True using mem
        by (intro bexI[of _ "(BlockCid bl, RawData bl)"]) (simp_all add: same_key_refl)
    qed
  qed
qed

lemma find_Some_props: "find P xs = Some s \<Longrightarrow> P s \<and> s \<in> set xs"
  by (auto simp: find_Some_iff)

lemma find_exists: "s \<in> set xs \<Longrightarrow> P s \<Longrightarrow> \<exists>t. find P xs = Some t"
  by (cases "find P xs") (auto simp: find_None_iff)


lemma Puts_stored:
  assumes "stored b0 log0" and "Puts b0 blks = (None, b)"
  shows "stored b (put_log (ropts b0) (wopts b0) log0 blks) \<and> ropts b = ropts b0 \<and>
         wopts b = wopts b0 \<and> header b = header b0"
proof -
  have "PutMany_loop b0 blks = (None, b)"
    using assms Puts_loop[OF stored_not_finalized[OF assms(1)]] by simp
  from PutMany_loop_stored[OF assms(1) this] show ?thesis by auto
qed

lemma new_section_found:
  assumes "find (\<lambda>s. same_key ro (fst s) k) log0 = None"
    and "x \<in> set blks" and "same_key ro (BlockCid x) k"
    and "\<forall>y\<in>set blks. same_key ro (BlockCid y) k \<longrightarrow> RawData y = d"
  shows "\<exists>c. find (\<lambda>s. same_key ro (fst s) k) (put_log ro wo log0 blks) = Some (c, d)"
proof -
  let ?P = "\<lambda>s. same_key ro (fst s) k"
  let ?final = "put_log ro wo log0 blks"
  obtain s where s: "s \<in> set ?final" "same_key ro (fst s) (BlockCid x)"
    using put_log_covers[OF assms(2)] by blast
  have Ps: "?P s" by (rule same_key_trans[OF s(2) assms(3)])
  have "\<exists>t. find ?P ?final = Some t"
    by (rule find_exists[OF s(1), where P = ?P, OF Ps])
  then obtain t where t: "find ?P ?final = Some t" ..
  have Pt: "?P t" and tin: "t \<in> set ?final"
    using find_Some_props[OF t] by simp_all
  have "t \<notin> set log0"
    using assms(1) Pt by (cases t) (auto simp: find_None_iff)
  then have "t \<in> (\<lambda>x. (BlockCid x, RawData x)) ` set blks"
    using tin put_log_set[of ro wo log0 blks] by blast
  then obtain y where y: "y \<in> set blks" "t = (BlockCid y, RawData y)"
    by blast
  then have "RawData y = d" using Pt assms(4) by simp
  then show ?thesis using t y by simp
qed

lemma matching_section_found:
  assumes "x \<in> set blks" and "same_key ro (BlockCid x) k"
    and "\<forall>s\<in>set log0. same_key ro (fst s) k \<longrightarrow> snd s = d"
    and "\<forall>y\<in>set blks. same_key ro (BlockCid y) k \<longrightarrow> RawData y = d"
  shows "\<exists>c. find (\<lambda>s. same_key ro (fst s) k) (put_log ro wo log0 blks) = Some (c, d)"
proof -
  let ?P = "\<lambda>s. same_key ro (fst s) k"
  let ?final = "put_log ro wo log0 blks"
  obtain s where s: "s \<in> set ?final" "same_key ro (fst s) (BlockCid x)"
    using put_log_covers[OF assms(1)] by blast
  have Ps: "?P s" by (rule same_key_trans[OF s(2) assms(2)])
  have "\<exists>t. find ?P ?final = Some t"
    by (rule find_exists[OF s(1), where P = ?P, OF Ps])
  then obtain t where t: "find ?P ?final = Some t" ..
  have Pt: "?P t" and tin: "t \<in> set ?final"
    using find_Some_props[OF t] by simp_all
  have "t \<in> set log0 \<or> t \<in> (\<lambda>x. (BlockCid x, RawData x)) ` set blks"
    using tin put_log_set[of ro wo log0 blks] by blast
  then have "snd t = d"
  proof
    assume "t \<in> set log0"
    then show ?thesis using assms(3) Pt by blast
  next
    assume "t \<in> (\<lambda>x. (BlockCid x, RawData x)) ` set blks"
    then obtain y where y: "y \<in> set blks" "t = (BlockCid y, RawData y)" by blast
    then show ?thesis using assms(4) Pt by simp
  qed
  then show ?thesis using t by (cases t) simp
qed

text \<open>
  C1. A sequence of \<open>Put\<close> calls that all succeed ends with the block of the key \<open>k\<close> and
  the payload \<open>d\<close>. The store \<open>b0\<close> it starts from is not finalized and its index entries
  point to the complete sections \<open>log0\<close> of its file (\<open>stored\<close>: the store of a new file, the
  store resumed from a file whose sections are complete, and every store that successful
  \<open>Put\<close> calls make of these). Then \<open>Has k\<close> is true; and \<open>Get k\<close> returns the block of \<open>k\<close>
  with the payload \<open>d\<close> when no section already in the store and no earlier block of the
  sequence that the matching policy of the store identifies with \<open>k\<close> carries another
  payload.
\<close>

theorem Put_then_Has_and_Get:
  assumes "stored b0 log0"
    and "Puts b0 (blks @ [Block k d]) = (None, b)"
  shows "Has b k = Inr True \<and>
         ((\<forall>s\<in>set log0. same_key (ropts b0) (fst s) k \<longrightarrow> snd s = d) \<and>
          (\<forall>x\<in>set blks. same_key (ropts b0) (BlockCid x) k \<longrightarrow> RawData x = d) \<longrightarrow>
          Get b k = Inr (Block k d))"
proof -
  let ?ro = "ropts b0"
  let ?P = "\<lambda>s. same_key ?ro (fst s) k"
  let ?final = "put_log ?ro (wopts b0) log0 (blks @ [Block k d])"
  have st: "stored b ?final" and ro: "ropts b = ?ro"
    using Puts_stored[OF assms(1,2)] by simp_all
  have x: "Block k d \<in> set (blks @ [Block k d])" by simp
  have sk: "same_key ?ro (BlockCid (Block k d)) k" by (simp add: same_key_refl)
  obtain s where s: "s \<in> set ?final" "?P s"
    using put_log_covers[OF x, of ?ro "wopts b0" log0] by auto
  have "\<exists>t. find ?P ?final = Some t"
    by (rule find_exists[OF s(1), where P = ?P, OF s(2)])
  then have "find ?P ?final \<noteq> None" by auto
  then have has: "Has b k = Inr True"
    unfolding stored_Has[OF st, of k] ro by simp
  have get: "Get b k = Inr (Block k d)"
    if a: "\<forall>s\<in>set log0. same_key ?ro (fst s) k \<longrightarrow> snd s = d"
      and c: "\<forall>x\<in>set blks. same_key ?ro (BlockCid x) k \<longrightarrow> RawData x = d"
  proof -
    have all: "\<forall>y\<in>set (blks @ [Block k d]). same_key ?ro (BlockCid y) k \<longrightarrow> RawData y = d"
      using c by simp
    obtain c' where f: "find ?P ?final = Some (c', d)"
      using matching_section_found[OF x sk a all] by blast
    show ?thesis unfolding stored_Get[OF st, of k] ro f by simp
  qed
  show ?thesis using has get by blast
qed


lemma list_all2_last:
  assumes "list_all2 P xs ys" and "xs \<noteq> []"
  shows "P (last xs) (last ys)"
proof -
  have l: "length xs = length ys" using assms(1) by (rule list_all2_lengthD)
  then have "ys \<noteq> []" using assms(2) by auto
  then show ?thesis
    using assms list_all2_nthD[OF assms(1), of "length xs - 1"] l
    by (simp add: last_conv_nth)
qed

lemma lay_last_section:
  assumes "lay b roots log" and "log \<noteq> []"
  shows "idx b \<noteq> [] \<and>
     (\<exists>d. readBlock (ReadOnly_of b) (snd (last (idx b))) = Inr (fst (last (idx b)), d) \<and>
          Position (dataWriter b) = snd (last (idx b)) + sec_len (fst (last (idx b)), d))"
proof -
  let ?hs = "carv1_HeaderSize (CarHeader roots 1)"
  obtain c d where ld: "last log = (c, d)" by (cases "last log")
  have sp: "log = butlast log @ [(c, d)]"
    using assms(2) ld by (metis append_butlast_last_id)
  have st: "stored b log" and ix: "idx b = idx_of ?hs log"
    using assms(1) by (simp_all add: lay_def)
  have "idx b = idx_of ?hs (butlast log) @ [(c, ?hs + sum_list (map sec_len (butlast log)))]"
    using idx_of_append[of ?hs "butlast log" "(c, d)"] sp ix by simp
  then have li: "last (idx b) = (c, ?hs + sum_list (map sec_len (butlast log)))"
    and ne: "idx b \<noteq> []"
    by simp_all
  have "sum_list (map sec_len log) = sum_list (map sec_len (butlast log)) + sec_len (c, d)"
    by (subst sp) simp
  then have pos: "Position (dataWriter b) = snd (last (idx b)) + sec_len (c, d)"
    using lay_Position[OF assms(1)] li by simp
  have es: "list_all2 (entry_ok (rw_f b) (DataOffset (header b))) (idx b) log"
    and nc: "\<not> closed (rw_f b)"
    using st by (simp_all add: stored_def)
  have "entry_ok (rw_f b) (DataOffset (header b)) (last (idx b)) (last log)"
    by (rule list_all2_last[OF es ne])
  then have e: "entry_ok (rw_f b) (DataOffset (header b))
      (c, ?hs + sum_list (map sec_len (butlast log))) (c, d)"
    by (simp add: li ld)
  have "readBlock (ReadOnly_of b) (snd (last (idx b))) = Inr (c, d)"
    using entry_reads(1)[OF nc e] by (simp add: readBlock_def ReadOnly_of_def li)
  then show ?thesis using ne pos li by auto
qed

lemma resume_lay_options:
  assumes "lay b roots log" and "DataPadding wo' = DataPadding (wopts b)"
  shows "OpenReadWrite (rw_f b) roots ro' wo' =
           Inr (b\<lparr>header := configured_header wo', ropts := ro', wopts := wo'\<rparr>)"
    and "lay (b\<lparr>header := configured_header wo', ropts := ro', wopts := wo'\<rparr>) roots log"
proof -
  let ?h = "configured_header wo'"
  let ?D = "DataOffset ?h"
  let ?hs = "carv1_HeaderSize (CarHeader roots 1)"
  let ?b0 = "\<lparr>rw_f = rw_f b, dataWriter = NewOffsetWriter ?D,
                  idx = newInsertionIndex, header = ?h, ropts = ro', wopts = wo'\<rparr>"
  let ?b' = "b\<lparr>header := ?h, ropts := ro', wopts := wo'\<rparr>"
  let ?pre = "enc IPragma @ replicate (?D - PragmaSize) (Raw 0) @ enc_carheader roots"
  have st: "stored b log" and h: "header b = configured_header (wopts b)"
    and c0: "content (rw_f b) =
        enc IPragma @ replicate (DataOffset (header b) - PragmaSize) (Raw 0) @
        enc_carheader roots @ concat (map enc_section log)"
    and ix: "idx b = idx_of ?hs log"
    using assms(1) by (simp_all add: lay_def)
  have DD: "DataOffset (header b) = ?D"
    using h assms(2) by (simp add: configured_header_def)
  have c: "content (rw_f b) = ?pre @ concat (map enc_section log)"
    using c0 by (simp add: DD)
  have st': "stored ?b' log"
    using st DD by (simp add: stored_def configured_header_def)
  show l': "lay ?b' roots log"
    using st' c ix by (simp add: lay_def)
  have nc: "\<not> closed (rw_f b)" using st by (simp add: stored_def)
  have ne: "length (content (rw_f b)) \<noteq> 0"
    using st by (auto simp: stored_def)
  note v = stored_pragma[OF st]
  note z = stored_header_zero[OF st]
  have D: "PragmaSize \<le> ?D" by (simp add: configured_header_def)
  have lp: "length ?pre = ?D + ?hs"
    using D by (simp add: length_enc length_enc_carheader del: One_nat_def)
  have "drop ?D (content (rw_f b)) = enc_carheader roots @ concat (map enc_section log)"
    using D by (simp add: c length_enc)
  then have rh: "read_at (rw_f b) ?D ReadHeader = Inr (CarHeader roots 1)"
    using nc by (simp add: read_at_def ReadHeader_enc)
  have n0: "\<not> closed (rw_f ?b0)" using nc by simp
  have c0': "content (rw_f ?b0) = ?pre @ concat (map enc_section log)" using c by simp
  have l0: "length ?pre = DataOffset (header ?b0) + ?hs" using lp by simp
  have "resume_loop ?b0 ?hs =
      Inr (?b0\<lparr>idx := idx ?b0 @ idx_of ?hs log\<rparr>, ?hs + sum_list (map sec_len log))"
    by (rule resume_loop_scan[OF n0 c0' l0])
  then have rl: "resume_loop ?b0 ?hs =
      Inr (?b0\<lparr>idx := idx b\<rparr>, ?hs + sum_list (map sec_len log))"
    by (simp add: newInsertionIndex_def ix del: One_nat_def)
  have dw: "SeekStart (NewOffsetWriter ?D) (?hs + sum_list (map sec_len log)) = dataWriter b"
    using st lay_Position[OF assms(1)] DD
    by (cases "dataWriter b") (auto simp: stored_def SeekStart_def NewOffsetWriter_def Position_def)
  have res: "resumeWithRoots ?b0 roots = (None, ?b')"
    by (simp add: resumeWithRoots_def v z zero_header_def rh Matches_def rl dw
        del: One_nat_def)
  show "OpenReadWrite (rw_f b) roots ro' wo' = Inr ?b'"
    using ne res by (simp add: OpenReadWrite_eq Let_def)
qed

lemma same_key_options:
  "BlockstoreUseWholeCIDs ro' = BlockstoreUseWholeCIDs ro \<Longrightarrow> same_key ro' = same_key ro"
  by (simp add: same_key_def fun_eq_iff)

text \<open>
  C2. A session creates the file, puts a non-empty sequence of blocks, every \<open>Put\<close>
  returning without error, and aborts before \<open>Finalize\<close>: between two calls, so that every
  section on file is complete. Reopening the file it leaves with the same roots, the same
  data padding and the same \<open>UseWholeCIDs\<close>, whatever the other options, succeeds and
  returns the store of the aborted session under the new options: same file, same index,
  same data cursor. Every block of the sequence is found by \<open>Has\<close>, and \<open>Get\<close> returns it
  when no other block of the sequence with the same key (under the matching policy) has
  another payload. The data cursor stands just past the last section of the index: at its
  offset plus its length. The data offset is in the range of a signed 64-bit file offset,
  where the unbounded offsets used here are the ones of the source.
\<close>

theorem resume_after_abort:
  assumes "content fl = []" and "OpenReadWrite fl roots ro wo = Inr b0"
    and "Puts b0 blks = (None, b)" and "blks \<noteq> []"
    and "PragmaSize + HeaderSize + DataPadding wo < 2 ^ 63"
    and "DataPadding wo' = DataPadding wo"
    and "BlockstoreUseWholeCIDs ro' = BlockstoreUseWholeCIDs ro"
  shows "\<exists>b'. OpenReadWrite (rw_f b) roots ro' wo' = Inr b' \<and>
     b' = b\<lparr>header := configured_header wo', ropts := ro', wopts := wo'\<rparr> \<and>
     (\<forall>x\<in>set blks. Has b' (BlockCid x) = Inr True \<and>
        ((\<forall>y\<in>set blks. same_key ro (BlockCid y) (BlockCid x) \<longrightarrow> RawData y = RawData x) \<longrightarrow>
          Get b' (BlockCid x) = Inr x)) \<and>
     idx b' \<noteq> [] \<and>
     (\<exists>d. readBlock (ReadOnly_of b') (snd (last (idx b'))) = Inr (fst (last (idx b')), d) \<and>
          Position (dataWriter b') = snd (last (idx b')) + sec_len (fst (last (idx b')), d))"
proof -
  let ?b' = "b\<lparr>header := configured_header wo', ropts := ro', wopts := wo'\<rparr>"
  have l0: "lay b0 roots []" and r0: "ropts b0 = ro" and w0: "wopts b0 = wo"
    using open_fresh_lay[OF assms(1,2)] by simp_all
  have nf: "\<not> finalized b0"
    using l0 lay_stored stored_not_finalized by blast
  have pm: "PutMany_loop b0 blks = (None, b)"
    using assms(3) Puts_loop[OF nf] by simp
  let ?log = "put_log ro wo [] blks"
  have l: "lay b roots ?log" and r: "ropts b = ro" and w: "wopts b = wo"
    using PutMany_loop_lay[OF l0 pm] r0 w0 by simp_all
  have pad: "DataPadding wo' = DataPadding (wopts b)" using assms(6) w by simp
  note op = resume_lay_options(1)[OF l pad, of ro']
  have l': "lay ?b' roots ?log" by (rule resume_lay_options(2)[OF l pad])
  have st: "stored ?b' ?log" using l' by (rule lay_stored)
  have r': "ropts ?b' = ro'" by simp
  note sk = same_key_options[OF assms(7)]
  have has: "Has ?b' (BlockCid x) = Inr True" if xin: "x \<in> set blks" for x
  proof -
    obtain s where s: "s \<in> set ?log" "same_key ro (fst s) (BlockCid x)"
      using put_log_covers[OF xin] by blast
    have "\<exists>t. find (\<lambda>s. same_key ro (fst s) (BlockCid x)) ?log = Some t"
      by (rule find_exists[OF s(1), where P = "\<lambda>s. same_key ro (fst s) (BlockCid x)", OF s(2)])
    then have "find (\<lambda>s. same_key ro (fst s) (BlockCid x)) ?log \<noteq> None"
      by auto
    then show ?thesis unfolding stored_Has[OF st] r' sk by simp
  qed
  have get: "Get ?b' (BlockCid x) = Inr x"
    if xin: "x \<in> set blks"
      and con: "\<forall>y\<in>set blks. same_key ro (BlockCid y) (BlockCid x) \<longrightarrow> RawData y = RawData x"
    for x
  proof -
    have n: "find (\<lambda>s. same_key ro (fst s) (BlockCid x)) [] = None" by simp
    obtain c where "find (\<lambda>s. same_key ro (fst s) (BlockCid x)) ?log = Some (c, RawData x)"
      using new_section_found[OF n xin same_key_refl con] by blast
    then show ?thesis unfolding stored_Get[OF st] r' sk by simp
  qed
  obtain x where "x \<in> set blks" using assms(4) by (cases blks) auto
  then have "?log \<noteq> []" using put_log_covers[of x blks ro wo "[]"] by auto
  note last = lay_last_section[OF l' this]
  show ?thesis using op has get last by blast
qed


lemma example_store_opened:
  "OpenReadWrite example_file [Cid 85 [1]] example_opts example_wopts = Inr example_store"
  unfolding example_store_def by code_simp

lemma example_store_reachable: "reachable example_store"
  by (rule reachable.fresh[OF _ example_store_opened]) (simp add: example_file_def)

lemma example_after_Puts: "Puts example_store example_blocks = (None, example_after)"
proof -
  have "fst (Puts example_store example_blocks) = None" by code_simp
  then show ?thesis by (simp add: example_after_def prod_eq_iff)
qed

lemma example_store_stored: "stored example_store []"
  using open_fresh_lay(1)[OF _ example_store_opened] lay_stored
  by (simp add: example_file_def)

theorem Put_then_Has_and_Get_witness:
  "stored example_store [] \<and>
   Puts example_store ([Block (Cid 85 [2]) [5]] @ [Block (Cid 85 [1]) [9]]) = (None, example_after) \<and>
   \<not> same_key (ropts example_store) (BlockCid (Block (Cid 85 [2]) [5])) (Cid 85 [1]) \<and>
   Has example_after (Cid 85 [1]) = Inr True \<and>
   Get example_after (Cid 85 [1]) = Inr (Block (Cid 85 [1]) [9])"
proof -
  have p: "Puts example_store ([Block (Cid 85 [2]) [5]] @ [Block (Cid 85 [1]) [9]]) =
      (None, example_after)"
    using example_after_Puts by (simp add: example_blocks_def)
  have n: "\<not> same_key (ropts example_store) (BlockCid (Block (Cid 85 [2]) [5])) (Cid 85 [1])"
    by code_simp
  then have c: "\<forall>x\<in>set [Block (Cid 85 [2]) [5]].
      same_key (ropts example_store) (BlockCid x) (Cid 85 [1]) \<longrightarrow> RawData x = [9]"
    by simp
  have a: "\<forall>s\<in>set ([] :: (cid \<times> bytes) list).
      same_key (ropts example_store) (fst s) (Cid 85 [1]) \<longrightarrow> snd s = [9]"
    by simp
  note t = Put_then_Has_and_Get[OF example_store_stored p]
  have "Has example_after (Cid 85 [1]) = Inr True" using t by (rule conjunct1)
  moreover have "Get example_after (Cid 85 [1]) = Inr (Block (Cid 85 [1]) [9])"
    using t[THEN conjunct2] a c by blast
  ultimately show ?thesis using example_store_stored p n by blast
qed

text \<open>
  C1 as stated fails on two stores. A session is cut inside the \<open>Put\<close> of the key
  \<open>Cid 85 [1]\<close>, after the length and the key of the section and before its payload. The
  store that \<open>OpenReadWrite\<close> returns on the file it leaves is not finalized and has an
  index entry for the torn section: the \<open>Put\<close> of the key is skipped as a duplicate and
  succeeds, \<open>Has\<close> is true, and \<open>Get\<close> fails at the end of the file. And on a new store
  with \<open>UseWholeCIDs\<close> off, two blocks with one multihash and two codecs are put
  successfully, and \<open>Get\<close> on the second key returns the payload of the first.
\<close>

theorem Put_on_torn_file_unreadable:
  "OpenReadWrite example_torn_file [] example_opts example_wopts = Inr example_resumed \<and>
   \<not> finalized example_resumed \<and>
   Put example_resumed (Block (Cid 85 [1]) [9]) = (None, example_resumed) \<and>
   Has example_resumed (Cid 85 [1]) = Inr True \<and>
   Get example_resumed (Cid 85 [1]) = Inl (Err ErrUnexpectedEOF) \<and>
   Puts example_store [Block (Cid 85 [1]) [9], Block (Cid 112 [1]) [7]] = (None, example_multihash) \<and>
   Has example_multihash (Cid 112 [1]) = Inr True \<and>
   Get example_multihash (Cid 112 [1]) = Inr (Block (Cid 112 [1]) [9])"
proof -
  have o: "OpenReadWrite example_torn_file [] example_opts example_wopts = Inr example_resumed"
    unfolding example_resumed_def by code_simp
  have f: "\<not> finalized example_resumed" by code_simp
  have "fst (Put example_resumed (Block (Cid 85 [1]) [9])) = None" by code_simp
  moreover have "snd (Put example_resumed (Block (Cid 85 [1]) [9])) = example_resumed" by code_simp
  ultimately have p: "Put example_resumed (Block (Cid 85 [1]) [9]) = (None, example_resumed)"
    by (simp add: prod_eq_iff)
  have h: "Has example_resumed (Cid 85 [1]) = Inr True" by code_simp
  have g: "Get example_resumed (Cid 85 [1]) = Inl (Err ErrUnexpectedEOF)" by code_simp
  have "fst (Puts example_store [Block (Cid 85 [1]) [9], Block (Cid 112 [1]) [7]]) = None"
    by code_simp
  then have m: "Puts example_store [Block (Cid 85 [1]) [9], Block (Cid 112 [1]) [7]] =
      (None, example_multihash)"
    by (simp add: example_multihash_def example_twins_def prod_eq_iff)
  have h2: "Has example_multihash (Cid 112 [1]) = Inr True" by code_simp
  have g2: "Get example_multihash (Cid 112 [1]) = Inr (Block (Cid 112 [1]) [9])" by code_simp
  show ?thesis using o f p h g m h2 g2 by blast
qed


theorem resume_after_abort_witness:
  "content example_file = [] \<and>
   OpenReadWrite example_file [Cid 85 [1]] example_opts example_wopts = Inr example_store \<and>
   Puts example_store example_blocks = (None, example_after) \<and>
   example_blocks \<noteq> [] \<and>
   DataPadding example_other_wopts = DataPadding example_wopts \<and>
   BlockstoreUseWholeCIDs example_other_opts = BlockstoreUseWholeCIDs example_opts \<and>
   OpenReadWrite (rw_f example_after) [Cid 85 [1]] example_other_opts example_other_wopts =
     Inr example_reopened \<and>
   Has example_reopened (Cid 85 [2]) = Inr True \<and>
   Get example_reopened (Cid 85 [2]) = Inr (Block (Cid 85 [2]) [5]) \<and>
   idx example_reopened \<noteq> [] \<and>
   (\<exists>d. readBlock (ReadOnly_of example_reopened) (snd (last (idx example_reopened))) =
          Inr (fst (last (idx example_reopened)), d) \<and>
        Position (dataWriter example_reopened) =
          snd (last (idx example_reopened)) + sec_len (fst (last (idx example_reopened)), d))"
proof -
  have c: "content example_file = []" by (simp add: example_file_def)
  have ne: "example_blocks \<noteq> []" by (simp add: example_blocks_def)
  have x: "Block (Cid 85 [2]) [5] \<in> set example_blocks" by (simp add: example_blocks_def)
  have con: "\<forall>y\<in>set example_blocks.
      same_key example_opts (BlockCid y) (BlockCid (Block (Cid 85 [2]) [5])) \<longrightarrow>
      RawData y = RawData (Block (Cid 85 [2]) [5])"
    by (simp add: example_blocks_def same_key_def example_opts_def)
  have b: "PragmaSize + HeaderSize + DataPadding example_wopts < 2 ^ 63"
    by (simp add: PragmaSize_def HeaderSize_def example_wopts_def)
  have p: "DataPadding example_other_wopts = DataPadding example_wopts"
    by (simp add: example_other_wopts_def example_wopts_def)
  have u: "BlockstoreUseWholeCIDs example_other_opts = BlockstoreUseWholeCIDs example_opts"
    by (simp add: example_other_opts_def example_opts_def)
  show ?thesis
    using resume_after_abort[OF c example_store_opened example_after_Puts ne b p u] c ne x con
      example_store_opened example_after_Puts p u
    unfolding example_reopened_def[symmetric]
    by fastforce
qed

text \<open>
  C2 as stated fails when the session aborts inside a \<open>Put\<close>. Cut inside the key of the
  section, the file cannot be reopened (the key does not decode), although the first block
  was wholly written. Cut after the key and before the payload, the file is reopened, the
  torn section is indexed, its block cannot be read, and the data cursor is set to 28: past
  the 27 bytes of data that the file holds, while the last whole section ends at 23.
\<close>

theorem resume_after_torn_Put:
  "content example_small_file = [] \<and>
   OpenReadWrite example_small_file [] example_opts example_wopts = Inr example_small \<and>
   Put example_small (Block (Cid 85 [2]) [5]) = (None, example_small_1) \<and>
   Put example_small_1 (Block (Cid 85 [1]) [9]) = (Some (Err ErrShortWrite), example_small_2) \<and>
   isl (OpenReadWrite example_cut_file [] example_opts example_wopts) \<and>
   fst (projl (OpenReadWrite example_cut_file [] example_opts example_wopts)) = Err ErrBadCid \<and>
   content example_short_file = [] \<and>
   OpenReadWrite example_short_file [] example_opts example_wopts = Inr example_short \<and>
   Put example_short (Block (Cid 85 [2]) [5]) = (None, example_short_1) \<and>
   Put example_short_1 (Block (Cid 85 [1]) [9]) = (Some (Err ErrShortWrite), example_short_2) \<and>
   OpenReadWrite example_torn_file [] example_opts example_wopts = Inr example_resumed \<and>
   idx example_resumed = [(Cid 85 [2], 18), (Cid 85 [1], 23)] \<and>
   readBlock (ReadOnly_of example_resumed) 18 = Inr (Cid 85 [2], [5]) \<and>
   sec_len (Cid 85 [2], [5]) = 5 \<and>
   readBlock (ReadOnly_of example_resumed) 23 = Inl (Err ErrUnexpectedEOF) \<and>
   length (content (rw_f example_resumed)) = DataOffset (header example_resumed) + 27 \<and>
   Position (dataWriter example_resumed) = 28"
proof -
  have a1: "content example_small_file = []" by (simp add: example_small_file_def)
  have a2: "OpenReadWrite example_small_file [] example_opts example_wopts = Inr example_small"
    unfolding example_small_def by code_simp
  have "fst (Put example_small (Block (Cid 85 [2]) [5])) = None" by code_simp
  then have a3: "Put example_small (Block (Cid 85 [2]) [5]) = (None, example_small_1)"
    by (simp add: example_small_1_def Put_def prod_eq_iff)
  have "fst (Put example_small_1 (Block (Cid 85 [1]) [9])) = Some (Err ErrShortWrite)" by code_simp
  then have a4: "Put example_small_1 (Block (Cid 85 [1]) [9]) =
      (Some (Err ErrShortWrite), example_small_2)"
    by (simp add: example_small_2_def Put_def prod_eq_iff)
  have a5: "isl (OpenReadWrite example_cut_file [] example_opts example_wopts)" by code_simp
  have a6: "fst (projl (OpenReadWrite example_cut_file [] example_opts example_wopts)) =
      Err ErrBadCid"
    by code_simp
  have b1: "content example_short_file = []" by (simp add: example_short_file_def)
  have b2: "OpenReadWrite example_short_file [] example_opts example_wopts = Inr example_short"
    unfolding example_short_def by code_simp
  have "fst (Put example_short (Block (Cid 85 [2]) [5])) = None" by code_simp
  then have b3: "Put example_short (Block (Cid 85 [2]) [5]) = (None, example_short_1)"
    by (simp add: example_short_1_def prod_eq_iff)
  have "fst (Put example_short_1 (Block (Cid 85 [1]) [9])) = Some (Err ErrShortWrite)" by code_simp
  then have b4: "Put example_short_1 (Block (Cid 85 [1]) [9]) =
      (Some (Err ErrShortWrite), example_short_2)"
    by (simp add: example_short_2_def prod_eq_iff)
  have b5: "OpenReadWrite example_torn_file [] example_opts example_wopts = Inr example_resumed"
    unfolding example_resumed_def by code_simp
  have b6: "idx example_resumed = [(Cid 85 [2], 18), (Cid 85 [1], 23)]" by code_simp
  have b7: "readBlock (ReadOnly_of example_resumed) 18 = Inr (Cid 85 [2], [5])" by code_simp
  have b8: "sec_len (Cid 85 [2], [5]) = 5" by code_simp
  have b9: "readBlock (ReadOnly_of example_resumed) 23 = Inl (Err ErrUnexpectedEOF)" by code_simp
  have b10: "length (content (rw_f example_resumed)) = DataOffset (header example_resumed) + 27"
    by code_simp
  have b11: "Position (dataWriter example_resumed) = 28" by code_simp
  show ?thesis
    using a1 a2 a3 a4 a5 a6 b1 b2 b3 b4 b5 b6 b7 b8 b9 b10 b11 by blast
qed


lemma write_bytes_twice:
  "write_bytes (write_bytes c off xs) (off + length xs) ys = write_bytes c off (xs @ ys)"
proof -
  let ?A = "take off (c @ replicate (off - length c) (Raw 0))"
  have lA: "length ?A = off" by simp
  have w1: "write_bytes c off xs = ?A @ xs @ drop (off + length xs) c"
    by (simp add: write_bytes_def)
  have "take (off + length xs) ((?A @ xs @ drop (off + length xs) c) @
      replicate (off + length xs - length (?A @ xs @ drop (off + length xs) c)) (Raw 0)) = ?A @ xs"
    using lA by simp
  moreover have "drop (off + length xs + length ys) (?A @ xs @ drop (off + length xs) c) =
      drop (off + length (xs @ ys)) c"
    using lA by (simp add: add.commute add.left_commute)
  ultimately show ?thesis
    unfolding w1 unfolding write_bytes_def by simp
qed

lemma Write_empty: "Write (fl, w) [] = (None, fl', w') \<Longrightarrow> fl' = fl \<and> w' = w"
  by (auto simp: Write_def WriteAt_def split: if_splits)

lemma write_each_ok:
  assumes "write_each (fl, w) ss = (None, fl', w')"
    and "content fl = write_bytes c0 o0 xs" and "offset w = o0 + length xs"
  shows "content fl' = write_bytes c0 o0 (xs @ concat ss) \<and>
         offset w' = o0 + length (xs @ concat ss) \<and> base w' = base w"
  using assms
proof (induction ss arbitrary: fl w xs)
  case Nil
  then show ?case by simp
next
  case (Cons s ss)
  obtain fl1 w1 where w1: "Write (fl, w) s = (None, fl1, w1)"
    and r: "write_each (fl1, w1) ss = (None, fl', w')"
    using Cons.prems(1) by (auto split: prod.splits option.splits)
  have k: "content fl1 = write_bytes c0 o0 (xs @ s) \<and> offset w1 = o0 + length (xs @ s) \<and>
      base w1 = base w"
  proof (cases "s = []")
    case True
    then show ?thesis using Write_empty w1 Cons.prems(2,3) by auto
  next
    case False
    from Write_ok[OF w1 False] show ?thesis
      using Cons.prems(2,3) by (simp add: write_bytes_twice)
  qed
  from Cons.IH[OF r, of "xs @ s"] k show ?case by simp
qed

lemma LdWrite_ok:
  assumes "LdWrite (fl, w) ss = (None, fl', w')"
  shows "content fl' = write_bytes (content fl) (offset w)
           (enc (IVarint (sum_list (map length ss))) @ concat ss) \<and>
         offset w' = offset w + length (enc (IVarint (sum_list (map length ss))) @ concat ss) \<and>
         base w' = base w"
proof -
  let ?v = "enc (IVarint (sum_list (map length ss)))"
  obtain fl1 w1 where w1: "Write (fl, w) ?v = (None, fl1, w1)"
    and r: "write_each (fl1, w1) ss = (None, fl', w')"
    using assms by (auto simp: LdWrite_def split: prod.splits option.splits)
  note k = Write_ok[OF w1 enc_nonempty]
  from write_each_ok[OF r, of "content fl" "offset w" ?v] k show ?thesis by simp
qed

lemma section_bytes:
  "enc (IVarint (sum_list (map length [enc (ICid c), enc_raw d]))) @ concat [enc (ICid c), enc_raw d]
     = enc_section (c, d)"
  by (simp add: enc_section_def length_enc enc_raw_def)

text \<open>
  C5. On a store that is not finalized, with \<open>AllowDuplicatePuts\<close> off, \<open>Put\<close> skips the
  block (it returns no error and leaves the store as it was: no section written, no index
  entry added) exactly when \<open>UseWholeCIDs\<close> is on and the insertion index has an entry with
  the block's whole key, or \<open>UseWholeCIDs\<close> is off and the lookup of the key in the index
  succeeds. Otherwise a \<open>Put\<close> that succeeds has written the section at the data cursor,
  has advanced the cursor by the length of the section, and has added the key to the index
  with the position the cursor had.
\<close>

theorem dedup_policy:
  assumes "\<not> finalized b" and "\<not> BlockstoreAllowDuplicatePuts (wopts b)"
  shows "((Put b blk = (None, b)) =
           ((BlockstoreUseWholeCIDs (ropts b) \<and> hasExactCID (idx b) (BlockCid blk)) \<or>
            (\<not> BlockstoreUseWholeCIDs (ropts b) \<and> (\<exists>off. ii_Get (idx b) (BlockCid blk) = Inr off)))) \<and>
         (\<not> ((BlockstoreUseWholeCIDs (ropts b) \<and> hasExactCID (idx b) (BlockCid blk)) \<or>
             (\<not> BlockstoreUseWholeCIDs (ropts b) \<and> (\<exists>off. ii_Get (idx b) (BlockCid blk) = Inr off))) \<longrightarrow>
          (\<forall>b'. Put b blk = (None, b') \<longrightarrow>
             idx b' = insertNoReplace (idx b) (BlockCid blk) (Position (dataWriter b)) \<and>
             content (rw_f b') = write_bytes (content (rw_f b)) (offset (dataWriter b))
               (enc_section (BlockCid blk, RawData blk)) \<and>
             offset (dataWriter b') = offset (dataWriter b) + sec_len (BlockCid blk, RawData blk)))"
proof -
  let ?c = "BlockCid blk" and ?d = "RawData blk"
  let ?cond = "(BlockstoreUseWholeCIDs (ropts b) \<and> hasExactCID (idx b) ?c) \<or>
      (\<not> BlockstoreUseWholeCIDs (ropts b) \<and> (\<exists>off. ii_Get (idx b) ?c = Inr off))"
  have isl: "(\<not> isl (ii_Get (idx b) ?c)) = (\<exists>off. ii_Get (idx b) ?c = Inr off)"
    by (cases "ii_Get (idx b) ?c") auto
  have sk: "dedup_skips b ?c = ?cond"
    using assms(2) by (simp add: dedup_skips_def isl)
  have put: "Put b blk = PutMany_loop b [blk]"
    using assms(1) by (simp add: Put_def PutMany_def)
  have skip: "Put b blk = (None, b)" if ?cond
    using that sk by (simp add: put PutMany_loop_Cons)
  have written: "idx b' = insertNoReplace (idx b) ?c (Position (dataWriter b)) \<and>
      content (rw_f b') = write_bytes (content (rw_f b)) (offset (dataWriter b))
        (enc_section (?c, ?d)) \<and>
      offset (dataWriter b') = offset (dataWriter b) + sec_len (?c, ?d)"
    if nc: "\<not> ?cond" and ok: "Put b blk = (None, b')" for b'
  proof -
    obtain fl w where lw: "LdWrite (rw_f b, dataWriter b) [enc (ICid ?c), enc_raw ?d] = (None, fl, w)"
      and b': "b' = b\<lparr>rw_f := fl, dataWriter := w,
          idx := insertNoReplace (idx b) ?c (Position (dataWriter b))\<rparr>"
      using ok nc sk
      by (auto simp: put PutMany_loop_Cons split: prod.splits option.splits)
    from LdWrite_ok[OF lw] show ?thesis
      unfolding section_bytes by (simp add: b' length_enc_section)
  qed
  have "?cond" if "Put b blk = (None, b)"
  proof (rule ccontr)
    assume "\<not> ?cond"
    from written[OF this that]
    have "offset (dataWriter b) = offset (dataWriter b) + sec_len (?c, ?d)" by blast
    then show False using sec_len_pos[of "(?c, ?d)"] by simp
  qed
  then show ?thesis using skip written by blast
qed

theorem dedup_policy_witness:
  "\<not> finalized example_after \<and> \<not> BlockstoreAllowDuplicatePuts (wopts example_after) \<and>
   \<not> BlockstoreUseWholeCIDs (ropts example_after) \<and>
   ii_Get (idx example_after) (BlockCid (Block (Cid 112 [1]) [7])) = Inr 31 \<and>
   Put example_after (Block (Cid 112 [1]) [7]) = (None, example_after)"
proof -
  have f: "\<not> finalized example_after" by code_simp
  have a: "\<not> BlockstoreAllowDuplicatePuts (wopts example_after)" by code_simp
  have w: "\<not> BlockstoreUseWholeCIDs (ropts example_after)" by code_simp
  have g: "ii_Get (idx example_after) (BlockCid (Block (Cid 112 [1]) [7])) = Inr 31" by code_simp
  show ?thesis
    using dedup_policy[OF f a, of "Block (Cid 112 [1]) [7]"] f a w g by auto
qed


lemma map_fst_idx_of: "map fst (idx_of p log) = map fst log"
  by (simp add: idx_of_def length_sec_offsets)

text \<open>
  C6. Two blocks whose keys have the same multihash and different codecs are put, in
  order, into a fresh store that does not allow duplicates. With \<open>UseWholeCIDs\<close> on, both
  are stored and \<open>Get\<close> on each key returns the payload of that key. With \<open>UseWholeCIDs\<close>
  off, only the first is stored and \<open>Get\<close> on the second key returns the payload of the
  first block.
\<close>

theorem same_multihash_two_codecs:
  assumes "content fl = []" and "OpenReadWrite fl roots ro wo = Inr b0"
    and "\<not> BlockstoreAllowDuplicatePuts wo"
    and "Hash k1 = Hash k2" and "Codec k1 \<noteq> Codec k2"
    and "Puts b0 [Block k1 d1, Block k2 d2] = (None, b)"
  shows "(BlockstoreUseWholeCIDs ro \<longrightarrow>
            map fst (idx b) = [k1, k2] \<and> Get b k1 = Inr (Block k1 d1) \<and>
            Get b k2 = Inr (Block k2 d2)) \<and>
         (\<not> BlockstoreUseWholeCIDs ro \<longrightarrow>
            map fst (idx b) = [k1] \<and> Get b k1 = Inr (Block k1 d1) \<and>
            Get b k2 = Inr (Block k2 d1))"
proof -
  have l0: "lay b0 roots []" and r0: "ropts b0 = ro" and w0: "wopts b0 = wo"
    using open_fresh_lay[OF assms(1,2)] by simp_all
  have nf: "\<not> finalized b0"
    using l0 lay_stored stored_not_finalized by blast
  have pm: "PutMany_loop b0 [Block k1 d1, Block k2 d2] = (None, b)"
    using assms(6) unfolding Puts_loop[OF nf] .
  let ?log = "put_log ro wo [] [Block k1 d1, Block k2 d2]"
  have l: "lay b roots ?log" and r: "ropts b = ro"
    using PutMany_loop_lay[OF l0 pm] r0 w0 by simp_all
  have st: "stored b ?log" using l by (rule lay_stored)
  have ix: "map fst (idx b) = map fst ?log"
    using l by (simp add: lay_def map_fst_idx_of)
  have ne: "k1 \<noteq> k2" using assms(5) by auto
  show ?thesis
  proof (cases "BlockstoreUseWholeCIDs ro")
    case True
    then have lg: "?log = [(k1, d1), (k2, d2)]"
      using ne by (simp add: same_key_def)
    show ?thesis
      unfolding stored_Get[OF st] r ix lg using True ne by (simp add: same_key_def)
  next
    case False
    then have lg: "?log = [(k1, d1)]"
      using assms(3,4) by (simp add: same_key_def)
    show ?thesis
      unfolding stored_Get[OF st] r ix lg using False assms(4) by (simp add: same_key_def)
  qed
qed

lemma PutMany_loop_append:
  "PutMany_loop b (xs @ ys) =
     (case PutMany_loop b xs of (None, b1) \<Rightarrow> PutMany_loop b1 ys | (Some e, b1) \<Rightarrow> (Some e, b1))"
proof (induction xs arbitrary: b)
  case Nil
  then show ?case by simp
next
  case (Cons x xs)
  show ?case
    by (simp add: PutMany_loop_Cons Cons.IH split: prod.splits option.splits)
qed

text \<open>
  C10. \<open>PutMany\<close> is not atomic. When the blocks \<open>pre\<close> are put successfully and the write
  of the next block fails with \<open>e\<close>, \<open>PutMany\<close> on the whole list returns \<open>e\<close>; the index is
  the one after \<open>pre\<close>, without an entry for the failed block; every block of \<open>pre\<close> is
  found by \<open>Has\<close> and \<open>Get\<close>; and every \<open>Has\<close> and \<open>Get\<close> answers as it did before the failed
  write.
\<close>

theorem PutMany_not_atomic:
  assumes "reachable b"
    and "PutMany b pre = (None, b1)"
    and "PutMany b1 [blk] = (Some e, b2)"
  shows "PutMany b (pre @ blk # post) = (Some e, b2) \<and> idx b2 = idx b1 \<and>
         (\<forall>x\<in>set pre. Has b2 (BlockCid x) = Inr True \<and>
            (\<exists>d. Get b2 (BlockCid x) = Inr (Block (BlockCid x) d))) \<and>
         (\<forall>k. Has b2 k = Has b1 k \<and> Get b2 k = Get b1 k)"
proof -
  obtain log0 where st0: "stored b log0"
    using reachable_stored[OF assms(1)] by blast
  have nf: "\<not> finalized b" using st0 by (rule stored_not_finalized)
  have p1: "PutMany_loop b pre = (None, b1)"
    using assms(2) nf by (simp add: PutMany_def)
  let ?log = "put_log (ropts b) (wopts b) log0 pre"
  have st1: "stored b1 ?log" and r1: "ropts b1 = ropts b"
    using PutMany_loop_stored[OF st0 p1] by auto
  have nf1: "\<not> finalized b1" using st1 by (rule stored_not_finalized)
  have p2: "PutMany_loop b1 [blk] = (Some e, b2)"
    using assms(3) nf1 by (simp add: PutMany_def)
  let ?c = "BlockCid blk" and ?d = "RawData blk"
  have ns: "\<not> dedup_skips b1 ?c"
    using p2 by (auto simp: PutMany_loop_Cons)
  obtain fl w where lw: "LdWrite (rw_f b1, dataWriter b1) [enc (ICid ?c), enc_raw ?d] = (Some e, fl, w)"
    and b2: "b2 = b1\<lparr>rw_f := fl, dataWriter := w\<rparr>"
    using p2 ns by (auto simp: PutMany_loop_Cons split: prod.splits option.splits)
  have st2: "stored b2 ?log"
    using stored_write(1)[OF st1 lw] b2 by simp
  have r2: "ropts b2 = ropts b" using b2 r1 by simp
  have "PutMany_loop b1 (blk # post) = (Some e, b2)"
    using ns lw b2 by (simp add: PutMany_loop_Cons)
  then have all: "PutMany b (pre @ blk # post) = (Some e, b2)"
    using nf p1 by (simp add: PutMany_def PutMany_loop_append)
  have vis: "Has b2 (BlockCid x) = Inr True \<and> (\<exists>d. Get b2 (BlockCid x) = Inr (Block (BlockCid x) d))"
    if xin: "x \<in> set pre" for x
  proof -
    let ?P = "\<lambda>s. same_key (ropts b) (fst s) (BlockCid x)"
    obtain s where s: "s \<in> set ?log" "?P s"
      using put_log_covers[OF xin] by blast
    have "\<exists>t. find ?P ?log = Some t"
      by (rule find_exists[OF s(1), where P = ?P, OF s(2)])
    then obtain t where t: "find ?P ?log = Some t" ..
    show ?thesis
      unfolding stored_Has[OF st2] stored_Get[OF st2] r2 t by simp
  qed
  have same: "Has b2 k = Has b1 k \<and> Get b2 k = Get b1 k" for k
    unfolding stored_Has[OF st2] stored_Get[OF st2] stored_Has[OF st1] stored_Get[OF st1] r1 r2
    by simp
  show ?thesis using all b2 vis same by simp
qed


theorem same_multihash_two_codecs_witness:
  "content example_file = [] \<and>
   OpenReadWrite example_file [Cid 85 [1]] example_opts example_wopts = Inr example_store \<and>
   OpenReadWrite example_file [Cid 85 [1]] example_whole example_wopts = Inr example_whole_store \<and>
   \<not> BlockstoreAllowDuplicatePuts example_wopts \<and>
   Hash (Cid 85 [1]) = Hash (Cid 112 [1]) \<and> Codec (Cid 85 [1]) \<noteq> Codec (Cid 112 [1]) \<and>
   Puts example_store [Block (Cid 85 [1]) [9], Block (Cid 112 [1]) [7]] = (None, example_multihash) \<and>
   Puts example_whole_store [Block (Cid 85 [1]) [9], Block (Cid 112 [1]) [7]] =
     (None, example_whole_after) \<and>
   map fst (idx example_multihash) = [Cid 85 [1]] \<and>
   Get example_multihash (Cid 112 [1]) = Inr (Block (Cid 112 [1]) [9]) \<and>
   map fst (idx example_whole_after) = [Cid 85 [1], Cid 112 [1]] \<and>
   Get example_whole_after (Cid 85 [1]) = Inr (Block (Cid 85 [1]) [9]) \<and>
   Get example_whole_after (Cid 112 [1]) = Inr (Block (Cid 112 [1]) [7])"
proof -
  have c: "content example_file = []" by (simp add: example_file_def)
  have ow: "OpenReadWrite example_file [Cid 85 [1]] example_whole example_wopts =
      Inr example_whole_store"
    unfolding example_whole_store_def by code_simp
  have a: "\<not> BlockstoreAllowDuplicatePuts example_wopts" by (simp add: example_wopts_def)
  have h: "Hash (Cid 85 [1]) = Hash (Cid 112 [1])" and k: "Codec (Cid 85 [1]) \<noteq> Codec (Cid 112 [1])"
    by simp_all
  have "fst (Puts example_store example_twins) = None" by code_simp
  then have p: "Puts example_store [Block (Cid 85 [1]) [9], Block (Cid 112 [1]) [7]] =
      (None, example_multihash)"
    by (simp add: example_multihash_def example_twins_def prod_eq_iff)
  have "fst (Puts example_whole_store example_twins) = None" by code_simp
  then have pw: "Puts example_whole_store [Block (Cid 85 [1]) [9], Block (Cid 112 [1]) [7]] =
      (None, example_whole_after)"
    by (simp add: example_whole_after_def example_twins_def prod_eq_iff)
  have m: "\<not> BlockstoreUseWholeCIDs example_opts" and wh: "BlockstoreUseWholeCIDs example_whole"
    by (simp_all add: example_opts_def example_whole_def)
  show ?thesis
    using same_multihash_two_codecs[OF c example_store_opened a h k p]
      same_multihash_two_codecs[OF c ow a h k pw] c example_store_opened ow a p pw m wh
    by simp
qed

theorem PutMany_not_atomic_witness:
  "reachable example_small \<and>
   PutMany example_small [Block (Cid 85 [2]) [5]] = (None, example_small_1) \<and>
   PutMany example_small_1 [Block (Cid 85 [1]) [9]] = (Some (Err ErrShortWrite), example_small_2) \<and>
   PutMany example_small ([Block (Cid 85 [2]) [5]] @ Block (Cid 85 [1]) [9] # [Block (Cid 85 [3]) []]) =
     (Some (Err ErrShortWrite), example_small_2) \<and>
   idx example_small_2 = idx example_small_1 \<and>
   Has example_small_2 (Cid 85 [2]) = Inr True \<and>
   Has example_small_2 (Cid 85 [1]) = Has example_small_1 (Cid 85 [1])"
proof -
  have o: "OpenReadWrite example_small_file [] example_opts example_wopts = Inr example_small"
    unfolding example_small_def by code_simp
  have r: "reachable example_small"
    by (rule reachable.fresh[OF _ o]) (simp add: example_small_file_def)
  have "fst (PutMany example_small [Block (Cid 85 [2]) [5]]) = None" by code_simp
  then have p1: "PutMany example_small [Block (Cid 85 [2]) [5]] = (None, example_small_1)"
    by (simp add: example_small_1_def prod_eq_iff)
  have "fst (PutMany example_small_1 [Block (Cid 85 [1]) [9]]) = Some (Err ErrShortWrite)"
    by code_simp
  then have p2: "PutMany example_small_1 [Block (Cid 85 [1]) [9]] =
      (Some (Err ErrShortWrite), example_small_2)"
    by (simp add: example_small_2_def prod_eq_iff)
  note t = PutMany_not_atomic[OF r p1 p2, of "[Block (Cid 85 [3]) []]"]
  have t1: "PutMany example_small
      ([Block (Cid 85 [2]) [5]] @ Block (Cid 85 [1]) [9] # [Block (Cid 85 [3]) []]) =
      (Some (Err ErrShortWrite), example_small_2)"
    using t by blast
  have t2: "idx example_small_2 = idx example_small_1"
    using t by blast
  have t3: "Has example_small_2 (Cid 85 [2]) = Inr True"
    using t[THEN conjunct2, THEN conjunct2, THEN conjunct1] by simp
  have t4: "Has example_small_2 (Cid 85 [1]) = Has example_small_1 (Cid 85 [1])"
    using t by blast
  show ?thesis
    using r p1 p2 t1 t2 t3 t4 by blast
qed

subsection \<open>The finalized store\<close>

lemma Write_offset:
  "Write (fl, w) bs = (e, fl', w') \<Longrightarrow> base w' = base w \<and> offset w \<le> offset w'"
  by (auto simp: Write_def split: prod.splits)

lemma write_each_offset:
  "write_each (fl, w) ss = (e, fl', w') \<Longrightarrow> base w' = base w \<and> offset w \<le> offset w'"
proof (induction ss arbitrary: fl w)
  case Nil
  then show ?case by simp
next
  case (Cons s ss)
  obtain e1 fl1 w1 where w1: "Write (fl, w) s = (e1, fl1, w1)"
    by (cases "Write (fl, w) s") auto
  show ?case
  proof (cases e1)
    case None
    then have "write_each (fl1, w1) ss = (e, fl', w')"
      using Cons.prems w1 by simp
    from Cons.IH[OF this] Write_offset[OF w1] show ?thesis by simp
  next
    case (Some x)
    then show ?thesis using Cons.prems w1 Write_offset[OF w1] by simp
  qed
qed

lemma LdWrite_offset:
  "LdWrite (fl, w) ss = (e, fl', w') \<Longrightarrow> base w' = base w \<and> offset w \<le> offset w'"
  using write_each_offset[of fl w "enc (IVarint (sum_list (map length ss))) # ss" e fl' w']
  by (simp add: LdWrite_def)

lemma PutMany_loop_writer:
  "PutMany_loop b blks = (e, b') \<Longrightarrow>
     base (dataWriter b') = base (dataWriter b) \<and> offset (dataWriter b) \<le> offset (dataWriter b')"
proof (induction blks arbitrary: b)
  case Nil
  then show ?case by simp
next
  case (Cons bl blks)
  let ?c = "BlockCid bl" and ?d = "RawData bl"
  show ?case
  proof (cases "dedup_skips b ?c")
    case True
    then show ?thesis using Cons by (simp add: PutMany_loop_Cons)
  next
    case False
    obtain e1 fl w where lw: "LdWrite (rw_f b, dataWriter b) [enc (ICid ?c), enc_raw ?d] = (e1, fl, w)"
      by (cases "LdWrite (rw_f b, dataWriter b) [enc (ICid ?c), enc_raw ?d]") auto
    note o = LdWrite_offset[OF lw]
    show ?thesis
    proof (cases e1)
      case (Some x)
      then show ?thesis using Cons.prems False lw o by (auto simp: PutMany_loop_Cons)
    next
      case None
      let ?b1 = "b\<lparr>rw_f := fl, dataWriter := w,
          idx := insertNoReplace (idx b) ?c (Position (dataWriter b))\<rparr>"
      have "PutMany_loop ?b1 blks = (e, b')"
        using Cons.prems False lw None by (simp add: PutMany_loop_Cons)
      from Cons.IH[OF this] o show ?thesis by simp
    qed
  qed
qed

lemma resume_loop_mono:
  "resume_loop b so = Inr (b', so') \<Longrightarrow>
     so \<le> so' \<and> header b' = header b \<and> dataWriter b' = dataWriter b"
proof (induction b so rule: resume_loop.induct)
  case (1 b sectionOffset)
  show ?case
  proof (cases "read_at (rw_f b) (DataOffset (header b) + sectionOffset) dec_varint")
    case (Inl e)
    then show ?thesis using "1.prems"
      by (subst (asm) resume_loop.simps) (simp split: if_splits)
  next
    case (Inr lm)
    obtain l m where lm: "lm = (l, m)" by (cases lm)
    show ?thesis
    proof (cases "l = 0")
      case True
      then show ?thesis using "1.prems" Inr lm
        by (subst (asm) resume_loop.simps) (simp split: if_splits)
    next
      case False
      show ?thesis
      proof (cases "read_at (rw_f b) (DataOffset (header b) + sectionOffset + m) dec_cid")
        case (Inl e)
        then show ?thesis using "1.prems" Inr lm False
          by (subst (asm) resume_loop.simps) simp
      next
        case nc: (Inr nc)
        obtain n c where nc': "nc = (n, c)" by (cases nc)
        have r: "resume_loop (b\<lparr>idx := insertNoReplace (idx b) c sectionOffset\<rparr>)
            (sectionOffset + m + n + l - n) = Inr (b', so')"
          using "1.prems" Inr lm False nc nc'
          by (subst (asm) resume_loop.simps) simp
        have "sectionOffset \<le> sectionOffset + m + n + l - n" by simp
        then show ?thesis
          using "1.IH"[OF Inr[unfolded lm] refl False nc[unfolded nc'] refl r] by simp
      qed
    qed
  qed
qed


lemma unfinalize_keeps:
  "unfinalize b = (e, b') \<Longrightarrow> header b' = header b \<and> dataWriter b' = dataWriter b"
  by (auto simp: unfinalize_def split: prod.splits)

lemma resumeWithRoots_ok:
  assumes "resumeWithRoots b0 roots = (None, b)"
  shows "header b = header b0 \<and> base (dataWriter b) = base (dataWriter b0) \<and>
         base (dataWriter b0) < offset (dataWriter b)"
proof -
  let ?mid = "(case read_at (rw_f b0) PragmaSize Header_ReadFrom of
                  Inl e \<Rightarrow> (None, b0)
                | Inr headerInFile \<Rightarrow>
                    if DataOffset headerInFile \<noteq> 0
                    then
                      (if DataOffset headerInFile \<noteq> DataOffset (header b0)
                       then
                         (Some (Err (ErrPaddingMismatch
                            (sub64 (sub64 (DataOffset headerInFile) PragmaSize) HeaderSize)
                            (sub64 (sub64 (DataOffset (header b0)) PragmaSize) HeaderSize))), b0)
                       else if DataSize headerInFile \<noteq> 0
                       then
                         (case Truncate (rw_f b0) (DataOffset headerInFile + DataSize headerInFile) of
                            (Some e, fl) \<Rightarrow> (Some e, b0\<lparr>rw_f := fl\<rparr>)
                          | (None, fl) \<Rightarrow> unfinalize (b0\<lparr>rw_f := fl\<rparr>))
                       else (Some (Err ErrCorruptHeader), b0))
                    else (None, b0))"
  obtain em b1 where mid: "?mid = (em, b1)" by (cases ?mid) auto
  have keep: "header b1 = header b0 \<and> dataWriter b1 = dataWriter b0"
    using mid unfinalize_keeps
    by (auto split: sum.splits if_splits prod.splits option.splits)
  obtain h b2 so where rl: "resume_loop b1 (carv1_HeaderSize h) = Inr (b2, so)"
    and b: "b = b2\<lparr>dataWriter := SeekStart (dataWriter b2) so\<rparr>"
    using assms unfolding resumeWithRoots_def mid
    by (auto split: sum.splits if_splits prod.splits option.splits)
  note m = resume_loop_mono[OF rl]
  have "0 < so" using m carv1_HeaderSize_pos[of h] by simp
  then show ?thesis using m keep b by (simp add: SeekStart_def)
qed

lemma Finalize_writer: "Finalize b = (e, b') \<Longrightarrow> dataWriter b' = dataWriter b"
  by (auto simp: Finalize_def Let_def split: if_splits prod.splits option.splits)

lemma opened_inv: "opened b \<Longrightarrow> base (dataWriter b) < offset (dataWriter b)"
proof (induction rule: opened.induct)
  case (by_open fl roots ro wo b)
  let ?h = "configured_header wo"
  let ?b0 = "\<lparr>rw_f = fl, dataWriter = NewOffsetWriter (DataOffset ?h),
                  idx = newInsertionIndex, header = ?h, ropts = ro, wopts = wo\<rparr>"
  show ?case
  proof (cases "content fl = []")
    case True
    have "stored b []"
      using open_fresh_lay(1)[OF True by_open] by (rule lay_stored)
    then show ?thesis by (simp add: stored_def)
  next
    case False
    then have "resumeWithRoots ?b0 roots = (None, b)"
      using by_open by (auto simp: OpenReadWrite_eq Let_def split: prod.splits option.splits)
    from resumeWithRoots_ok[OF this] show ?thesis by simp
  qed
next
  case (by_put b blks e b')
  show ?case
  proof (cases "finalized b")
    case True
    then show ?thesis using by_put by (simp add: PutMany_def)
  next
    case False
    then have p: "PutMany_loop b blks = (e, b')"
      using by_put.hyps(2) by (simp add: PutMany_def)
    from PutMany_loop_writer[OF p] by_put.IH show ?thesis by simp
  qed
next
  case (by_finalize b e b')
  then show ?case using Finalize_writer by simp
qed

text \<open>
  C4. After \<open>Finalize\<close> has succeeded on a read-write store, \<open>Put\<close>, \<open>PutMany\<close>, \<open>Has\<close>,
  \<open>Get\<close>, \<open>GetSize\<close> and \<open>AllKeysChan\<close> return the finalized error, as an error value and
  not as a panic; \<open>Put\<close> and \<open>PutMany\<close> leave the store as it is, so that every later call
  meets the same store and has the same answer. The store is any store that the operations
  produce (\<open>opened\<close>).
\<close>

theorem finalized_store_rejects_calls:
  assumes "opened b" and "Finalize b = (None, b')"
  shows "Put b' blk = (Some (Err ErrFinalized), b') \<and>
         PutMany b' blks = (Some (Err ErrFinalized), b') \<and>
         Has b' key = Inl (Err ErrFinalized) \<and>
         Get b' key = Inl (Err ErrFinalized) \<and>
         GetSize b' key = Inl (Err ErrFinalized) \<and>
         AllKeysChan b' = Inl (Err ErrFinalized)"
proof -
  have pos: "0 < Position (dataWriter b)"
    using opened_inv[OF assms(1)] by (simp add: Position_def)
  have "DataSize (header b) = 0"
    using assms(2) by (auto simp: Finalize_def split: if_splits)
  then have "header b' = WithDataSize (header b) (Position (dataWriter b))"
    using assms(2)
    by (auto simp: Finalize_def Let_def split: prod.splits option.splits)
  then have "finalized b'"
    using pos by (simp add: finalized_def WithDataSize_def)
  then show ?thesis
    by (simp add: Put_def PutMany_def Has_def Get_def GetSize_def AllKeysChan_def)
qed

theorem finalized_store_rejects_calls_witness:
  "opened example_after \<and> Finalize example_after = (None, example_finalized) \<and>
   Put example_finalized (Block (Cid 85 [3]) [4]) = (Some (Err ErrFinalized), example_finalized) \<and>
   PutMany example_finalized [] = (Some (Err ErrFinalized), example_finalized) \<and>
   Has example_finalized (Cid 85 [1]) = Inl (Err ErrFinalized) \<and>
   Get example_finalized (Cid 85 [1]) = Inl (Err ErrFinalized) \<and>
   GetSize example_finalized (Cid 85 [1]) = Inl (Err ErrFinalized) \<and>
   AllKeysChan example_finalized = Inl (Err ErrFinalized)"
proof -
  have "opened example_store"
    by (rule opened.by_open[OF example_store_opened])
  moreover have "PutMany example_store example_blocks = (None, example_after)"
  proof -
    have "fst (PutMany example_store example_blocks) = None" by code_simp
    moreover have "snd (PutMany example_store example_blocks) = example_after"
      unfolding example_after_def by code_simp
    ultimately show ?thesis by (simp add: prod_eq_iff)
  qed
  ultimately have o: "opened example_after" by (rule opened.by_put)
  have "fst (Finalize example_after) = None" by code_simp
  then have f: "Finalize example_after = (None, example_finalized)"
    by (simp add: example_finalized_def prod_eq_iff)
  show ?thesis
    using finalized_store_rejects_calls[OF o f] o f by simp
qed

subsection \<open>Finalize\<close>

lemma Write_budget:
  assumes "\<not> closed fl"
  shows "Write (fl, w) bs =
     (if fits (budget fl) (length bs) then None else Some (Err ErrShortWrite),
      fl\<lparr>content := put_at (content fl) (offset w) (accepted (budget fl) bs),
         budget := remaining (budget fl) (length bs)\<rparr>,
      w\<lparr>offset := offset w + length (accepted (budget fl) bs)\<rparr>)"
proof (cases "budget fl")
  case None
  then show ?thesis using assms
    by (cases fl) (auto simp: Write_def WriteAt_def fits_def accepted_def remaining_def put_at_def)
next
  case (Some k)
  then show ?thesis using assms
    by (cases fl)
      (auto simp: Write_def WriteAt_def fits_def accepted_def remaining_def put_at_def min_def)
qed

lemma put_at_twice:
  "put_at (put_at c off xs) (off + length xs) ys = put_at c off (xs @ ys)"
  by (auto simp: put_at_def write_bytes_twice)

lemma fits_remaining:
  "fits bo n \<Longrightarrow> fits (remaining bo n) m = fits bo (n + m)"
  by (cases bo) (auto simp: fits_def remaining_def)

lemma accepted_append:
  "accepted bo (xs @ ys) = accepted bo xs @ accepted (remaining bo (length xs)) ys"
  by (cases bo) (auto simp: accepted_def remaining_def)

lemma accepted_fits: "fits bo (length xs) \<Longrightarrow> accepted bo xs = xs"
  by (cases bo) (auto simp: accepted_def fits_def)

lemma accepted_after_failure:
  "\<not> fits bo n \<Longrightarrow> accepted (remaining bo n) ys = []"
  by (cases bo) (auto simp: accepted_def fits_def remaining_def)

lemma remaining_add: "remaining (remaining bo n) m = remaining bo (n + m)"
  by (cases bo) (auto simp: remaining_def)

lemma not_fits_more: "\<not> fits bo n \<Longrightarrow> \<not> fits bo (n + m)"
  by (cases bo) (auto simp: fits_def)

lemma write_each_budget:
  assumes "\<not> closed fl"
  shows "\<exists>w'. write_each (fl, w) ss =
     (if fits (budget fl) (length (concat ss)) then None else Some (Err ErrShortWrite),
      fl\<lparr>content := put_at (content fl) (offset w) (accepted (budget fl) (concat ss)),
         budget := remaining (budget fl) (length (concat ss))\<rparr>,
      w')"
  using assms
proof (induction ss arbitrary: fl w)
  case Nil
  then show ?case
    by (cases fl; cases "budget fl") (auto simp: fits_def accepted_def remaining_def put_at_def)
next
  case (Cons s ss)
  let ?bo = "budget fl"
  let ?fl1 = "fl\<lparr>content := put_at (content fl) (offset w) (accepted ?bo s),
         budget := remaining ?bo (length s)\<rparr>"
  let ?w1 = "w\<lparr>offset := offset w + length (accepted ?bo s)\<rparr>"
  note W = Write_budget[OF Cons.prems, of w s]
  show ?case
  proof (cases "fits ?bo (length s)")
    case False
    have a: "accepted ?bo (s @ concat ss) = accepted ?bo s"
      using False by (simp add: accepted_append accepted_after_failure)
    have r: "remaining ?bo (length s + length (concat ss)) = remaining ?bo (length s)"
      using False by (cases ?bo) (auto simp: remaining_def fits_def)
    have f: "\<not> fits ?bo (length s + length (concat ss))"
      by (rule not_fits_more[OF False])
    show ?thesis using W False by (simp add: a r f)
  next
    case True
    have n1: "\<not> closed ?fl1" using Cons.prems by simp
    obtain w' where w': "write_each (?fl1, ?w1) ss =
       (if fits (budget ?fl1) (length (concat ss)) then None else Some (Err ErrShortWrite),
        ?fl1\<lparr>content := put_at (content ?fl1) (offset ?w1) (accepted (budget ?fl1) (concat ss)),
           budget := remaining (budget ?fl1) (length (concat ss))\<rparr>,
        w')"
      using Cons.IH[OF n1, of ?w1] by blast
    have as: "accepted ?bo s = s" using True by (rule accepted_fits)
    have c: "put_at (put_at (content fl) (offset w) s) (offset w + length s)
          (accepted (remaining ?bo (length s)) (concat ss)) =
        put_at (content fl) (offset w) (accepted ?bo (s @ concat ss))"
      by (simp add: put_at_twice accepted_append as)
    have "write_each (fl, w) (s # ss) = write_each (?fl1, ?w1) ss"
      using W True by simp
    then show ?thesis
      unfolding w' using True c
      by (simp add: as fits_remaining remaining_add)
  qed
qed


lemma remaining_after_failure:
  "\<not> fits bo n \<Longrightarrow> remaining bo (n + m) = remaining bo n"
  by (cases bo) (auto simp: fits_def remaining_def)

lemma Finalize_file:
  assumes "DataSize (header b) = 0" and "\<not> closed (rw_f b)"
  shows "Finalize b =
    (if fits (budget (rw_f b)) (index_len (flatten (idx b)) + HeaderSize) then None
     else Some (Err ErrShortWrite),
     b\<lparr>header := WithDataSize (header b) (Position (dataWriter b)),
       rw_f := (rw_f b)\<lparr>content :=
           put_at
             (put_at (content (rw_f b)) (IndexOffset (header b) + Position (dataWriter b))
                (accepted (budget (rw_f b)) (enc (IIndex (flatten (idx b))))))
             PragmaSize
             (accepted (remaining (budget (rw_f b)) (index_len (flatten (idx b))))
                (enc (IHeader (WithDataSize (header b) (Position (dataWriter b)))))),
         budget := remaining (budget (rw_f b)) (index_len (flatten (idx b)) + HeaderSize),
         closed := True\<rparr>\<rparr>)"
proof -
  let ?h1 = "WithDataSize (header b) (Position (dataWriter b))"
  let ?I = "enc (IIndex (flatten (idx b)))"
  let ?H = "enc (IHeader ?h1)"
  let ?n = "index_len (flatten (idx b))"
  let ?bo = "budget (rw_f b)"
  let ?IO = "IndexOffset (header b) + Position (dataWriter b)"
  let ?b1 = "b\<lparr>header := ?h1\<rparr>"
  let ?fl1 = "(rw_f b)\<lparr>content := put_at (content (rw_f b)) ?IO (accepted ?bo ?I),
      budget := remaining ?bo ?n\<rparr>"
  have lI: "length ?I = ?n" by (simp add: length_enc)
  have lH: "length ?H = HeaderSize" by (simp add: length_enc)
  have io: "IndexOffset ?h1 = ?IO" by (simp add: WithDataSize_def)
  have W1: "Write (rw_f b, NewOffsetWriter ?IO) ?I =
      (if fits ?bo ?n then None else Some (Err ErrShortWrite), ?fl1,
       (NewOffsetWriter ?IO)\<lparr>offset := offset (NewOffsetWriter ?IO) + length (accepted ?bo ?I)\<rparr>)"
    using Write_budget[OF assms(2), of "NewOffsetWriter ?IO" ?I]
    by (simp add: lI NewOffsetWriter_def)
  show ?thesis
  proof (cases "fits ?bo ?n")
    case False
    have F: "Finalize b = (Some (Err ErrShortWrite), ?b1\<lparr>rw_f := Close ?fl1\<rparr>)"
      using assms(1) W1 False
      by (simp add: Finalize_def Let_def index_WriteTo_def io)
    have a: "accepted (remaining ?bo ?n) ?H = []"
      using False by (rule accepted_after_failure)
    have r: "remaining ?bo (?n + HeaderSize) = remaining ?bo ?n"
      using False by (rule remaining_after_failure)
    have f: "\<not> fits ?bo (?n + HeaderSize)"
      using False by (rule not_fits_more)
    show ?thesis
      unfolding F using f by (simp add: a r put_at_def Close_def)
  next
    case True
    have n1: "\<not> closed ?fl1" using assms(2) by simp
    have cc: "concat [take 16 ?H, drop 16 ?H] = ?H" by simp
    obtain w' where W2: "write_each (?fl1, NewOffsetWriter PragmaSize) [take 16 ?H, drop 16 ?H] =
       (if fits (budget ?fl1) (length ?H) then None else Some (Err ErrShortWrite),
        ?fl1\<lparr>content := put_at (content ?fl1) (offset (NewOffsetWriter PragmaSize))
              (accepted (budget ?fl1) ?H),
           budget := remaining (budget ?fl1) (length ?H)\<rparr>,
        w')"
      using write_each_budget[OF n1, of "NewOffsetWriter PragmaSize" "[take 16 ?H, drop 16 ?H]"]
      unfolding cc by blast
    have F: "Finalize b =
        (if fits (budget ?fl1) (length ?H) then None else Some (Err ErrShortWrite),
         ?b1\<lparr>rw_f := Close (?fl1\<lparr>content := put_at (content ?fl1) (offset (NewOffsetWriter PragmaSize))
              (accepted (budget ?fl1) ?H),
           budget := remaining (budget ?fl1) (length ?H)\<rparr>)\<rparr>)"
      using assms(1) W1 True W2
      by (simp add: Finalize_def Let_def index_WriteTo_def Header_WriteTo_def io)
    show ?thesis
      unfolding F using True
      by (simp add: lH fits_remaining remaining_add Close_def NewOffsetWriter_def)
  qed
qed


lemma drop_write_bytes_after:
  "off + length bs \<le> n \<Longrightarrow> off \<le> length c \<Longrightarrow> drop n (write_bytes c off bs) = drop n c"
  by (simp add: write_bytes_def min_def)

lemma Header_ReadFrom_enc:
  assumes "h \<noteq> zero_header"
  shows "Header_ReadFrom (enc (IHeader h) @ rest) = Inr h"
proof -
  let ?H = "enc (IHeader h)"
  have l: "length ?H = HeaderSize" by (simp add: length_enc)
  obtain xs where xs: "?H = Sym (IHeader h) 0 # xs"
    using enc_sym_head[of "IHeader h"] assms by auto
  have t: "take HeaderSize (?H @ rest) = ?H" using l by simp
  have nz: "?H \<noteq> replicate HeaderSize (Raw 0)"
    by (simp add: xs Cons_replicate_eq)
  have ia: "item_at ?H = Inr (IHeader h)"
    using item_at_enc[of "IHeader h" "[]"] assms by simp
  have ne: "?H @ rest \<noteq> []" using xs by simp
  have ge: "\<not> length (?H @ rest) < HeaderSize" using l by simp
  show ?thesis
    unfolding Header_ReadFrom_def t using ne ge nz ia by simp
qed

lemma Header_ReadFrom_region:
  assumes "take HeaderSize xs = take HeaderSize ys"
    and "HeaderSize \<le> length xs" and "HeaderSize \<le> length ys"
  shows "Header_ReadFrom xs = Header_ReadFrom ys"
proof -
  have "xs \<noteq> []" "ys \<noteq> []" using assms(2,3) by (auto simp: HeaderSize_def)
  then show ?thesis using assms by (simp add: Header_ReadFrom_def)
qed

lemma Header_ReadFrom_length:
  "Header_ReadFrom xs = Inr h \<Longrightarrow> HeaderSize \<le> length xs"
  by (auto simp: Header_ReadFrom_def split: if_splits)

lemma Finalize_header:
  "Finalize b = (e, b') \<Longrightarrow>
     header b' = header b \<or> header b' = WithDataSize (header b) (Position (dataWriter b))"
  by (auto simp: Finalize_def Let_def split: if_splits prod.splits option.splits)

lemma opened_index_offset: "opened b \<Longrightarrow> PragmaSize + HeaderSize \<le> IndexOffset (header b)"
proof (induction rule: opened.induct)
  case (by_open fl roots ro wo b)
  let ?h = "configured_header wo"
  let ?b0 = "\<lparr>rw_f = fl, dataWriter = NewOffsetWriter (DataOffset ?h),
                  idx = newInsertionIndex, header = ?h, ropts = ro, wopts = wo\<rparr>"
  have "header b = ?h"
  proof (cases "content fl = []")
    case True
    then show ?thesis
      using open_fresh_lay[OF True by_open] by (simp add: lay_def)
  next
    case False
    then have "resumeWithRoots ?b0 roots = (None, b)"
      using by_open by (auto simp: OpenReadWrite_eq Let_def split: prod.splits option.splits)
    from resumeWithRoots_ok[OF this] show ?thesis by simp
  qed
  then show ?case by (simp add: configured_header_def)
next
  case (by_put b blks e b')
  show ?case
  proof (cases "finalized b")
    case True
    then show ?thesis using by_put by (simp add: PutMany_def)
  next
    case False
    then have p: "PutMany_loop b blks = (e, b')"
      using by_put.hyps(2) by (simp add: PutMany_def)
    from PutMany_loop_header[OF p] by_put.IH show ?thesis by simp
  qed
next
  case (by_finalize b e b')
  then show ?case using Finalize_header[OF by_finalize.hyps(2)]
    by (auto simp: WithDataSize_def)
qed

lemma finalized_file_reads:
  assumes "PragmaSize + HeaderSize \<le> io" and "h \<noteq> zero_header"
    and "it \<noteq> IVarint 0" and "it \<noteq> IHeader zero_header"
  shows "Header_ReadFrom
           (drop PragmaSize (write_bytes (write_bytes c io (enc it)) PragmaSize (enc (IHeader h)))) =
         Inr h"
    and "item_at (drop io (write_bytes (write_bytes c io (enc it)) PragmaSize (enc (IHeader h)))) =
         Inr it"
proof -
  let ?c1 = "write_bytes c io (enc it)"
  let ?H = "enc (IHeader h)"
  have lH: "length ?H = HeaderSize" by (simp add: length_enc)
  have l1: "PragmaSize + HeaderSize \<le> length ?c1"
    using assms(1) by (simp add: length_write_bytes)
  then have p1: "PragmaSize \<le> length ?c1" by simp
  have "drop PragmaSize (write_bytes ?c1 PragmaSize ?H) = ?H @ drop (PragmaSize + length ?H) ?c1"
    by (rule drop_write_bytes_at[OF p1])
  then show "Header_ReadFrom (drop PragmaSize (write_bytes ?c1 PragmaSize ?H)) = Inr h"
    by (simp add: Header_ReadFrom_enc[OF assms(2)])
  have d: "drop io (write_bytes ?c1 PragmaSize ?H) = drop io ?c1"
    using assms(1) p1 by (intro drop_write_bytes_after) (simp_all add: lH)
  have "\<exists>rest. drop io ?c1 = enc it @ rest"
  proof (cases "io \<le> length c")
    case True
    then show ?thesis by (simp add: drop_write_bytes_at)
  next
    case False
    then show ?thesis by (simp add: drop_write_bytes_beyond)
  qed
  then obtain rest where "drop io ?c1 = enc it @ rest" ..
  then show "item_at (drop io (write_bytes ?c1 PragmaSize ?H)) = Inr it"
    unfolding d by (simp add: item_at_enc[OF assms(3,4)])
qed


lemma Finalize_twice: "DataSize (header b) \<noteq> 0 \<Longrightarrow> Finalize b = (Some (Err ErrFinalizedTwice), b)"
  by (simp add: Finalize_def)

lemma crash_keeps_header:
  assumes "PragmaSize + HeaderSize \<le> io"
    and "Header_ReadFrom (drop PragmaSize c) = Inr h0"
  shows "Header_ReadFrom (drop PragmaSize (put_at c io bs)) = Inr h0"
proof -
  have l: "PragmaSize + HeaderSize \<le> length c"
    using Header_ReadFrom_length[OF assms(2)] by (simp add: HeaderSize_def)
  have t: "take (PragmaSize + HeaderSize) (put_at c io bs) = take (PragmaSize + HeaderSize) c"
    using assms(1) l by (simp add: put_at_def take_write_bytes_before)
  have l': "PragmaSize + HeaderSize \<le> length (put_at c io bs)"
    using l by (auto simp: put_at_def length_write_bytes)
  have "take HeaderSize (drop PragmaSize (put_at c io bs)) =
      drop PragmaSize (take (PragmaSize + HeaderSize) (put_at c io bs))"
    by (simp add: drop_take)
  also have "\<dots> = drop PragmaSize (take (PragmaSize + HeaderSize) c)" by (simp only: t)
  also have "\<dots> = take HeaderSize (drop PragmaSize c)" by (simp add: drop_take)
  finally have "Header_ReadFrom (drop PragmaSize (put_at c io bs)) =
      Header_ReadFrom (drop PragmaSize c)"
    using l l' by (intro Header_ReadFrom_region) simp_all
  then show ?thesis using assms(2) by simp
qed

text \<open>
  C3. \<open>Finalize\<close> on a store that the operations produce (\<open>opened\<close>). When the data size
  of its header is not zero, it fails with the finalized-twice error and changes nothing.
  When it is zero and the file is open, the steps are these, in this order. The data size
  of the header becomes the position of the data writer, which is not zero. Then the file
  receives the flattened index at the index offset and, after it, the header at the offset
  of the pragma size, as far as the device accepts bytes: the header is written last, no
  byte of it before the whole index is on file. The file is closed, the call succeeds
  exactly when the device accepts the index and the header, and a second \<open>Finalize\<close> fails
  with the finalized-twice error. After a success the file holds the header, with the data
  size, at the offset of the pragma size and the index at the index offset. After a crash
  before the header write (the device accepts at most the bytes of the index) the call
  fails and the header on file reads as it read before the call: as the zero header, with
  the data size zero, on the file of a store that is not finalized (\<open>stored\<close>).
\<close>

theorem Finalize_steps_in_order:
  assumes "opened b" and "Finalize b = (e, b')"
  shows "(DataSize (header b) \<noteq> 0 \<longrightarrow> e = Some (Err ErrFinalizedTwice) \<and> b' = b) \<and>
         (DataSize (header b) = 0 \<and> \<not> closed (rw_f b) \<longrightarrow>
            header b' = WithDataSize (header b) (Position (dataWriter b)) \<and>
            DataSize (header b') = Position (dataWriter b) \<and> DataSize (header b') \<noteq> 0 \<and>
            content (rw_f b') =
              put_at
                (put_at (content (rw_f b)) (IndexOffset (header b'))
                   (accepted (budget (rw_f b)) (enc (IIndex (flatten (idx b))))))
                PragmaSize
                (accepted (remaining (budget (rw_f b)) (index_len (flatten (idx b))))
                   (enc (IHeader (header b')))) \<and>
            closed (rw_f b') \<and>
            (e = None) = fits (budget (rw_f b)) (index_len (flatten (idx b)) + HeaderSize) \<and>
            Finalize b' = (Some (Err ErrFinalizedTwice), b') \<and>
            (fits (budget (rw_f b)) (index_len (flatten (idx b)) + HeaderSize) \<longrightarrow>
               read_at (reopened (rw_f b')) PragmaSize Header_ReadFrom = Inr (header b') \<and>
               read_at (reopened (rw_f b')) (IndexOffset (header b')) item_at =
                 Inr (IIndex (flatten (idx b)))) \<and>
            (\<forall>k h0. budget (rw_f b) = Some k \<and> k \<le> index_len (flatten (idx b)) \<and>
                 read_at (rw_f b) PragmaSize Header_ReadFrom = Inr h0 \<longrightarrow>
               e = Some (Err ErrShortWrite) \<and>
               read_at (reopened (rw_f b')) PragmaSize Header_ReadFrom = Inr h0) \<and>
            (\<forall>k log. budget (rw_f b) = Some k \<and> k \<le> index_len (flatten (idx b)) \<and>
                 stored b log \<longrightarrow>
               e = Some (Err ErrShortWrite) \<and>
               read_at (reopened (rw_f b')) PragmaSize Header_ReadFrom = Inr zero_header))"
proof -
  let ?h1 = "WithDataSize (header b) (Position (dataWriter b))"
  let ?fi = "flatten (idx b)"
  let ?I = "enc (IIndex ?fi)"
  let ?H = "enc (IHeader ?h1)"
  let ?n = "index_len ?fi"
  let ?bo = "budget (rw_f b)"
  let ?c = "content (rw_f b)"
  let ?IO = "IndexOffset (header b) + Position (dataWriter b)"
  have pos: "Position (dataWriter b) \<noteq> 0"
    using opened_inv[OF assms(1)] by (simp add: Position_def)
  have io: "PragmaSize + HeaderSize \<le> ?IO"
    using opened_index_offset[OF assms(1)] by simp
  have first: "e = Some (Err ErrFinalizedTwice) \<and> b' = b" if "DataSize (header b) \<noteq> 0"
    using Finalize_twice[OF that] assms(2) by simp
  have second: "header b' = ?h1 \<and>
            DataSize (header b') = Position (dataWriter b) \<and> DataSize (header b') \<noteq> 0 \<and>
            content (rw_f b') =
              put_at (put_at ?c (IndexOffset (header b')) (accepted ?bo ?I)) PragmaSize
                (accepted (remaining ?bo ?n) (enc (IHeader (header b')))) \<and>
            closed (rw_f b') \<and>
            (e = None) = fits ?bo (?n + HeaderSize) \<and>
            Finalize b' = (Some (Err ErrFinalizedTwice), b') \<and>
            (fits ?bo (?n + HeaderSize) \<longrightarrow>
               read_at (reopened (rw_f b')) PragmaSize Header_ReadFrom = Inr (header b') \<and>
               read_at (reopened (rw_f b')) (IndexOffset (header b')) item_at = Inr (IIndex ?fi)) \<and>
            (\<forall>k h0. budget (rw_f b) = Some k \<and> k \<le> ?n \<and>
                 read_at (rw_f b) PragmaSize Header_ReadFrom = Inr h0 \<longrightarrow>
               e = Some (Err ErrShortWrite) \<and>
               read_at (reopened (rw_f b')) PragmaSize Header_ReadFrom = Inr h0) \<and>
            (\<forall>k log. budget (rw_f b) = Some k \<and> k \<le> ?n \<and> stored b log \<longrightarrow>
               e = Some (Err ErrShortWrite) \<and>
               read_at (reopened (rw_f b')) PragmaSize Header_ReadFrom = Inr zero_header)"
    if z: "DataSize (header b) = 0" and nc: "\<not> closed (rw_f b)"
  proof -
    note F = Finalize_file[OF z nc]
    have e: "e = (if fits ?bo (?n + HeaderSize) then None else Some (Err ErrShortWrite))"
      using F assms(2) by simp
    have h: "header b' = ?h1" using F assms(2) by auto
    have ioh: "IndexOffset (header b') = ?IO" by (simp add: h WithDataSize_def)
    have ds: "DataSize (header b') = Position (dataWriter b)" by (simp add: h WithDataSize_def)
    have c: "content (rw_f b') =
        put_at (put_at ?c ?IO (accepted ?bo ?I)) PragmaSize (accepted (remaining ?bo ?n) ?H)"
      using F assms(2) by auto
    have cl: "closed (rw_f b')" using F assms(2) by auto
    have tw: "Finalize b' = (Some (Err ErrFinalizedTwice), b')"
      using ds pos by (intro Finalize_twice) simp
    have "DataSize ?h1 \<noteq> DataSize zero_header"
      using pos by (simp add: WithDataSize_def zero_header_def)
    then have nz: "?h1 \<noteq> zero_header" by auto
    have ok: "read_at (reopened (rw_f b')) PragmaSize Header_ReadFrom = Inr (header b') \<and>
        read_at (reopened (rw_f b')) (IndexOffset (header b')) item_at = Inr (IIndex ?fi)"
      if f: "fits ?bo (?n + HeaderSize)"
    proof -
      have f1: "fits ?bo (length ?I)"
        using f by (cases ?bo) (auto simp: fits_def length_enc)
      have f2: "fits (remaining ?bo ?n) (length ?H)"
        using f by (cases ?bo) (auto simp: fits_def remaining_def length_enc)
      have c': "content (rw_f b') = write_bytes (write_bytes ?c ?IO ?I) PragmaSize ?H"
        unfolding c by (simp add: accepted_fits[OF f1] accepted_fits[OF f2] put_at_def enc_nonempty)
      have it: "IIndex ?fi \<noteq> IVarint 0" "IIndex ?fi \<noteq> IHeader zero_header" by simp_all
      have io1: "IndexOffset ?h1 = ?IO" by (simp add: WithDataSize_def)
      from finalized_file_reads[OF io nz it, of ?c] show ?thesis
        by (simp add: read_at_def reopened_def c' h io1)
    qed
    have crash: "e = Some (Err ErrShortWrite) \<and>
        read_at (reopened (rw_f b')) PragmaSize Header_ReadFrom = Inr h0"
      if k: "budget (rw_f b) = Some k" "k \<le> ?n"
        and r: "read_at (rw_f b) PragmaSize Header_ReadFrom = Inr h0" for k h0
    proof -
      have nf: "\<not> fits ?bo (?n + HeaderSize)"
        using k by (simp add: fits_def HeaderSize_def)
      have a: "accepted (remaining ?bo ?n) ?H = []"
        using k by (simp add: accepted_def remaining_def)
      have c': "content (rw_f b') = put_at ?c ?IO (accepted ?bo ?I)"
        unfolding c a by (simp add: put_at_def)
      have r0: "Header_ReadFrom (drop PragmaSize ?c) = Inr h0"
        using r nc by (simp add: read_at_def)
      from crash_keeps_header[OF io r0] show ?thesis
        using e nf by (simp add: read_at_def reopened_def c')
    qed
    have io1: "IndexOffset ?h1 = ?IO" by (simp add: WithDataSize_def)
    have c2: "content (rw_f b') =
        put_at (put_at ?c (IndexOffset (header b')) (accepted ?bo ?I)) PragmaSize
          (accepted (remaining ?bo ?n) (enc (IHeader (header b'))))"
      unfolding h io1 by (rule c)
    have ds2: "DataSize (header b') \<noteq> 0" using ds pos by simp
    have e2: "(e = None) = fits ?bo (?n + HeaderSize)" using e by simp
    have crash0: "e = Some (Err ErrShortWrite) \<and>
        read_at (reopened (rw_f b')) PragmaSize Header_ReadFrom = Inr zero_header"
      if "budget (rw_f b) = Some k" "k \<le> ?n" "stored b log" for k log
      using crash[OF that(1,2) stored_header_zero[OF that(3)]] .
    show ?thesis
      using h ds ds2 c2 cl e2 tw ok crash crash0 by blast
  qed
  show ?thesis using first second by blast
qed

lemma example_after_opened: "opened example_after"
proof -
  have "opened example_store"
    by (rule opened.by_open[OF example_store_opened])
  moreover have "PutMany example_store example_blocks = (None, example_after)"
  proof -
    have "fst (PutMany example_store example_blocks) = None" by code_simp
    moreover have "snd (PutMany example_store example_blocks) = example_after"
      unfolding example_after_def by code_simp
    ultimately show ?thesis by (simp add: prod_eq_iff)
  qed
  ultimately show ?thesis by (rule opened.by_put)
qed

lemma example_finalized_Finalize: "Finalize example_after = (None, example_finalized)"
proof -
  have "fst (Finalize example_after) = None" by code_simp
  then show ?thesis by (simp add: example_finalized_def prod_eq_iff)
qed

theorem Finalize_steps_in_order_witness:
  "opened example_after \<and> Finalize example_after = (None, example_finalized) \<and>
   DataSize (header example_after) = 0 \<and> \<not> closed (rw_f example_after) \<and>
   fits (budget (rw_f example_after)) (index_len (flatten (idx example_after)) + HeaderSize) \<and>
   header example_finalized =
     WithDataSize (header example_after) (Position (dataWriter example_after)) \<and>
   DataSize (header example_finalized) = 36 \<and>
   closed (rw_f example_finalized) \<and>
   read_at (reopened (rw_f example_finalized)) PragmaSize Header_ReadFrom =
     Inr (header example_finalized) \<and>
   read_at (reopened (rw_f example_finalized)) (IndexOffset (header example_finalized)) item_at =
     Inr (IIndex (flatten (idx example_after))) \<and>
   opened example_finalized \<and> DataSize (header example_finalized) \<noteq> 0 \<and>
   Finalize example_finalized = (Some (Err ErrFinalizedTwice), example_finalized) \<and>
   opened example_small_1 \<and> DataSize (header example_small_1) = 0 \<and>
   \<not> closed (rw_f example_small_1) \<and>
   budget (rw_f example_small_1) = Some 2 \<and> index_len (flatten (idx example_small_1)) = 10 \<and>
   read_at (rw_f example_small_1) PragmaSize Header_ReadFrom = Inr zero_header \<and>
   Finalize example_small_1 = (Some (Err ErrShortWrite), example_crashed) \<and>
   read_at (reopened (rw_f example_crashed)) PragmaSize Header_ReadFrom = Inr zero_header"
proof -
  note o1 = example_after_opened
  note f1 = example_finalized_Finalize
  have z1: "DataSize (header example_after) = 0" by code_simp
  have nc1: "\<not> closed (rw_f example_after)" by code_simp
  have ft1: "fits (budget (rw_f example_after))
      (index_len (flatten (idx example_after)) + HeaderSize)"
    by code_simp
  have p1: "Position (dataWriter example_after) = 36" by code_simp
  note t1 = Finalize_steps_in_order[OF o1 f1, THEN conjunct2, rule_format, OF conjI[OF z1 nc1]]
  have h1: "header example_finalized =
      WithDataSize (header example_after) (Position (dataWriter example_after))"
    using t1 by blast
  have "DataSize (header example_finalized) = Position (dataWriter example_after)"
    using t1 by blast
  then have d1: "DataSize (header example_finalized) = 36" by (simp only: p1)
  have c1: "closed (rw_f example_finalized)" using t1 by blast
  have r1: "read_at (reopened (rw_f example_finalized)) PragmaSize Header_ReadFrom =
      Inr (header example_finalized)"
    using t1 ft1 by blast
  have i1: "read_at (reopened (rw_f example_finalized)) (IndexOffset (header example_finalized))
      item_at = Inr (IIndex (flatten (idx example_after)))"
    using t1 ft1 by blast
  have o2: "opened example_finalized" by (rule opened.by_finalize[OF o1 f1])
  have nz2: "DataSize (header example_finalized) \<noteq> 0" using d1 by simp
  have f2: "Finalize example_finalized =
      (fst (Finalize example_finalized), snd (Finalize example_finalized))"
    by simp
  have tw: "Finalize example_finalized = (Some (Err ErrFinalizedTwice), example_finalized)"
    using Finalize_steps_in_order[OF o2 f2, THEN conjunct1] nz2 by (simp add: prod_eq_iff)
  have os: "opened example_small"
  proof -
    have "OpenReadWrite example_small_file [] example_opts example_wopts = Inr example_small"
      unfolding example_small_def by code_simp
    then show ?thesis by (rule opened.by_open)
  qed
  have "fst (PutMany example_small [Block (Cid 85 [2]) [5]]) = None" by code_simp
  then have "PutMany example_small [Block (Cid 85 [2]) [5]] = (None, example_small_1)"
    by (simp add: example_small_1_def prod_eq_iff)
  then have o3: "opened example_small_1" by (rule opened.by_put[OF os])
  have z3: "DataSize (header example_small_1) = 0" by code_simp
  have nc3: "\<not> closed (rw_f example_small_1)" by code_simp
  have b3: "budget (rw_f example_small_1) = Some 2" by code_simp
  have n3: "index_len (flatten (idx example_small_1)) = 10" by code_simp
  have r3: "read_at (rw_f example_small_1) PragmaSize Header_ReadFrom = Inr zero_header"
    by code_simp
  have f3: "Finalize example_small_1 = (fst (Finalize example_small_1), example_crashed)"
    by (simp add: example_crashed_def)
  note t3 = Finalize_steps_in_order[OF o3 f3, THEN conjunct2, rule_format, OF conjI[OF z3 nc3]]
  have k3: "budget (rw_f example_small_1) = Some 2 \<and>
      2 \<le> index_len (flatten (idx example_small_1)) \<and>
      read_at (rw_f example_small_1) PragmaSize Header_ReadFrom = Inr zero_header"
    using b3 n3 r3 by simp
  have c3: "fst (Finalize example_small_1) = Some (Err ErrShortWrite) \<and>
      read_at (reopened (rw_f example_crashed)) PragmaSize Header_ReadFrom = Inr zero_header"
    using t3 k3 by blast
  then have f3': "Finalize example_small_1 = (Some (Err ErrShortWrite), example_crashed)"
    using f3 by simp
  show ?thesis
    using o1 f1 z1 nc1 ft1 h1 d1 c1 r1 i1 o2 nz2 tw o3 z3 nc3 b3 n3 r3 f3' c3 by blast
qed


subsection \<open>Resuming with another data padding\<close>






end
